theory Spec2Isabelle
  imports Main "HOL-Library.Word" "HOL-Library.AList"
begin

text \<open>
  The conversation store, the message stream assembler and the turn orchestrator of the
  chat client (the component \<open>App\<close>), as functions on an explicit state. The remote
  service, the file reader, the clock and browser storage are parameters of the
  functions that use them.
\<close>

section \<open>Strings\<close>

text \<open>
  A JavaScript string is a sequence of UTF-16 code units; \<open>endsWith\<close>, \<open>slice\<close>,
  \<open>substring\<close> and \<open>===\<close> all work on code units. The cursor glyph U+258B and the
  dash U+2014 of the stop marker are one code unit each.
\<close>

type_synonym jsstring = "16 word list"

definition js :: "string \<Rightarrow> jsstring" where
  "js cs = map of_char cs"

definition truthy :: "jsstring \<Rightarrow> bool" where
  "truthy t = (t \<noteq> [])"

definition startsWith :: "jsstring \<Rightarrow> jsstring \<Rightarrow> bool" where
  "startsWith t p = (take (length p) t = p)"

definition endsWith :: "jsstring \<Rightarrow> jsstring \<Rightarrow> bool" where
  "endsWith t p = (length p \<le> length t \<and> drop (length t - length p) t = p)"

definition substring :: "jsstring \<Rightarrow> nat \<Rightarrow> jsstring" where
  "substring t n = drop n t"

text \<open>\<open>String.prototype.trim\<close> removes white space and line terminators at both ends.\<close>

definition isWhiteSpace :: "16 word \<Rightarrow> bool" where
  "isWhiteSpace c =
     (c \<in> {0x0009, 0x000A, 0x000B, 0x000C, 0x000D, 0x0020, 0x00A0, 0x1680,
            0x2028, 0x2029, 0x202F, 0x205F, 0x3000, 0xFEFF}
      \<or> (0x2000 \<le> c \<and> c \<le> 0x200A))"

definition trim :: "jsstring \<Rightarrow> jsstring" where
  "trim t = rev (dropWhile isWhiteSpace (rev (dropWhile isWhiteSpace t)))"

definition LOADING_INDICATOR_CONTENT :: jsstring where
  "LOADING_INDICATOR_CONTENT = js ''___LOADING___''"

definition GLYPH :: jsstring where
  "GLYPH = [0x258B]"

definition STOP_MARKER :: jsstring where
  "STOP_MARKER = [0x000A, 0x000A, 0x2014] @ js '' Generation stopped by user '' @ [0x2014]"

section \<open>Data model (types.ts)\<close>

datatype MessageRole = USER | MODEL | ERROR

record Message =
  role :: MessageRole
  content :: jsstring
  imageUrl :: "jsstring option"

text \<open>
  A conversation id is the string \<open>chat_<t>\<close> with \<open>t = Date.now()\<close>;
  \<open>parseInt(id.split('_')[1])\<close> reads \<open>t\<close> back, which is \<open>stamp\<close>.
\<close>

datatype chat_id = ChatId nat

fun stamp :: "chat_id \<Rightarrow> nat" where
  "stamp (ChatId t) = t"

record Conversation =
  id_conv :: chat_id
  title :: jsstring
  messages :: "Message list"

text \<open>
  The store \<open>Record<string, Conversation>\<close> is an object whose keys are kept in
  insertion order: an association list. Assigning to a key is \<open>AList.update\<close>,
  \<open>delete obj[k]\<close> is \<open>AList.delete\<close>, reading is \<open>map_of\<close>.
\<close>

type_synonym Conversations = "(chat_id \<times> Conversation) list"

section \<open>Message stream assembler\<close>

text \<open>
  The body of \<open>updateLastMessage\<close> on the last message: the sentinel is replaced by the
  empty string, otherwise one trailing cursor glyph is cut off; then the chunk is
  appended, and the glyph again unless the stream is done.
\<close>

definition assemble :: "jsstring \<Rightarrow> bool \<Rightarrow> Message \<Rightarrow> Message" where
  "assemble contentChunk isDone lastMessage =
     (let currentContent = content lastMessage;
          currentContent' =
            (if currentContent = LOADING_INDICATOR_CONTENT then []
             else if endsWith currentContent GLYPH then butlast currentContent
             else currentContent)
      in lastMessage\<lparr>content := currentContent' @ contentChunk @ (if isDone then [] else GLYPH)\<rparr>)"

text \<open>
  \<open>updateLastMessage\<close> is a state update of the store. \<open>currentChatId\<close> is the value
  the closure captured. Nothing changes when there is no current id, no such
  conversation, no last message, or a last message that is not of the model role.
\<close>

definition updateLastMessage ::
  "chat_id option \<Rightarrow> jsstring \<Rightarrow> bool \<Rightarrow> Conversations \<Rightarrow> Conversations" where
  "updateLastMessage currentChatId contentChunk isDone prev =
     (case currentChatId of
        None \<Rightarrow> prev
      | Some cid \<Rightarrow>
          (case map_of prev cid of
             None \<Rightarrow> prev
           | Some current \<Rightarrow>
               (case rev (messages current) of
                  [] \<Rightarrow> prev
                | lastMessage # earlier \<Rightarrow>
                    if role lastMessage = MODEL
                    then AList.update cid
                           (current\<lparr>messages :=
                              rev earlier @ [assemble contentChunk isDone lastMessage]\<rparr>) prev
                    else prev)))"

text \<open>
  The chunks of a stream applied in arrival order, then the finalising call, which
  the turn makes with the empty string or with the stop marker.
\<close>

definition applyChunks :: "chat_id \<Rightarrow> jsstring list \<Rightarrow> Conversations \<Rightarrow> Conversations" where
  "applyChunks cid chunks prev =
     fold (\<lambda>chunk. updateLastMessage (Some cid) chunk False) chunks prev"

definition finalize :: "chat_id \<Rightarrow> jsstring \<Rightarrow> Conversations \<Rightarrow> Conversations" where
  "finalize cid lastChunk prev = updateLastMessage (Some cid) lastChunk True prev"

section \<open>Session state\<close>

text \<open>A selected \<open>File\<close>: its MIME type and its size in bytes.\<close>

record File =
  file_type :: jsstring
  file_size :: nat

text \<open>
  The hooks of \<open>App\<close> that the turn logic reads or writes. A value of this type is
  the live state: the queued state updates are applied to it in the order in which
  they were queued. \<open>isStopped\<close> is \<open>isStoppedRef.current\<close>. A function of the
  component does not read the live state but the hooks as the closure of its render
  holds them; where that matters the function takes them as a second state, named
  \<open>seen\<close>. The message arrays are changed in place and never replaced, so the
  messages read through a closure are those the array holds at the moment of the
  read.
\<close>

record app_state =
  conversations :: Conversations
  currentChatId :: "chat_id option"
  userInput :: jsstring
  isLoading :: bool
  imageFile :: "File option"
  imagePreview :: "jsstring option"
  isStopped :: bool

definition newConversation :: "chat_id \<Rightarrow> Conversation" where
  "newConversation newId = \<lparr>id_conv = newId, title = js ''New Chat'', messages = []\<rparr>"

definition placeholder :: Message where
  "placeholder = \<lparr>role = MODEL, content = LOADING_INDICATOR_CONTENT, imageUrl = None\<rparr>"

text \<open>The chat area shows the spinner for a message whose content is the sentinel.\<close>

definition showsSpinner :: "Message \<Rightarrow> bool" where
  "showsSpinner msg = (content msg = LOADING_INDICATOR_CONTENT)"

text \<open>
  \<open>current.messages.push(...)\<close> inside a store update, for the conversation \<open>cid\<close>
  if it exists; and \<open>pop\<close> followed by \<open>push\<close> (\<open>pop\<close> on an empty array does
  nothing).
\<close>

definition pushMessages :: "chat_id \<Rightarrow> Message list \<Rightarrow> Conversations \<Rightarrow> Conversations" where
  "pushMessages cid ms prev =
     (case map_of prev cid of
        None \<Rightarrow> prev
      | Some current \<Rightarrow> AList.update cid (current\<lparr>messages := messages current @ ms\<rparr>) prev)"

definition popPush :: "chat_id \<Rightarrow> Message \<Rightarrow> Conversations \<Rightarrow> Conversations" where
  "popPush cid msg prev =
     (case map_of prev cid of
        None \<Rightarrow> prev
      | Some current \<Rightarrow>
          AList.update cid (current\<lparr>messages := butlast (messages current) @ [msg]\<rparr>) prev)"

definition addMessageToCurrentChat :: "Message \<Rightarrow> app_state \<Rightarrow> app_state" where
  "addMessageToCurrentChat message s =
     (case currentChatId s of
        None \<Rightarrow> s
      | Some cid \<Rightarrow> s\<lparr>conversations := pushMessages cid [message] (conversations s)\<rparr>)"

definition startNewChat :: "nat \<Rightarrow> app_state \<Rightarrow> app_state" where
  "startNewChat now s =
     (let newId = ChatId now
      in s\<lparr>conversations := AList.update newId (newConversation newId) (conversations s),
           currentChatId := Some newId\<rparr>)"

definition switchChat :: "chat_id \<Rightarrow> app_state \<Rightarrow> app_state" where
  "switchChat cid s =
     (case map_of (conversations s) cid of
        None \<Rightarrow> s
      | Some _ \<Rightarrow> s\<lparr>currentChatId := Some cid\<rparr>)"

text \<open>
  \<open>deleteChat\<close>. \<open>Object.keys\<close> lists the keys in insertion order; \<open>sort\<close> is stable
  and its comparator \<open>parseInt(b.split('_')[1]) - parseInt(a.split('_')[1])\<close> orders by
  descending time stamp. \<open>now\<close> is \<open>Date.now()\<close>.
\<close>

definition sortIds :: "chat_id list \<Rightarrow> chat_id list" where
  "sortIds ks = sort_key (\<lambda>k. - int (stamp k)) ks"

definition deleteChat :: "nat \<Rightarrow> chat_id \<Rightarrow> app_state \<Rightarrow> app_state" where
  "deleteChat now cid s =
     (let newConversations = AList.delete cid (conversations s)
      in if currentChatId s = Some cid
         then (case sortIds (map fst newConversations) of
                 k # _ \<Rightarrow> s\<lparr>conversations := newConversations, currentChatId := Some k\<rparr>
               | [] \<Rightarrow>
                   (let newId = ChatId now
                    in s\<lparr>conversations :=
                           AList.update newId (newConversation newId) newConversations,
                         currentChatId := Some newId\<rparr>))
         else s\<lparr>conversations := newConversations\<rparr>)"

definition handleStop :: "app_state \<Rightarrow> app_state" where
  "handleStop s = s\<lparr>isStopped := True\<rparr>"

definition handleRemoveImage :: "app_state \<Rightarrow> app_state" where
  "handleRemoveImage s = s\<lparr>imageFile := None, imagePreview := None\<rparr>"

text \<open>
  \<open>handleFileChange\<close>. The first argument is \<open>event.target.files?.[0]\<close>; the second is
  what the \<open>FileReader\<close> later delivers: the data URL, or an error (then \<open>onerror\<close>
  runs and \<open>onloadend\<close> stores the null result).
\<close>

datatype read_result = Loaded jsstring | ReadFailed

definition MAX_SIZE_MB :: nat where
  "MAX_SIZE_MB = 10"

definition invalidTypeMessage :: Message where
  "invalidTypeMessage =
     \<lparr>role = ERROR,
      content = js ''Invalid file type. Please select a valid image file (e.g., JPEG, PNG, WEBP).'',
      imageUrl = None\<rparr>"

definition tooLargeMessage :: Message where
  "tooLargeMessage =
     \<lparr>role = ERROR,
      content = js ''File is too large. Please select an image under 10MB.'',
      imageUrl = None\<rparr>"

definition unreadableMessage :: Message where
  "unreadableMessage =
     \<lparr>role = ERROR,
      content = js ''Could not read the selected image. It might be corrupted. Please try another one.'',
      imageUrl = None\<rparr>"

definition handleFileChange :: "File option \<Rightarrow> read_result \<Rightarrow> app_state \<Rightarrow> app_state" where
  "handleFileChange selected reader s =
     (case selected of
        None \<Rightarrow> s
      | Some file \<Rightarrow>
          if \<not> startsWith (file_type file) (js ''image/'')
          then addMessageToCurrentChat invalidTypeMessage s
          else if file_size file > MAX_SIZE_MB * 1024 * 1024
          then addMessageToCurrentChat tooLargeMessage s
          else (case reader of
                  Loaded dataUrl \<Rightarrow> s\<lparr>imageFile := Some file, imagePreview := Some dataUrl\<rparr>
                | ReadFailed \<Rightarrow>
                    (addMessageToCurrentChat unreadableMessage (s\<lparr>imageFile := Some file\<rparr>))
                      \<lparr>imageFile := None, imagePreview := None\<rparr>))"

text \<open>The update that writes the title of a conversation, if it is in the store.\<close>

definition setTitle :: "chat_id \<Rightarrow> jsstring \<Rightarrow> Conversations \<Rightarrow> Conversations" where
  "setTitle cid newTitle prev =
     (case map_of prev cid of
        None \<Rightarrow> prev
      | Some c \<Rightarrow> AList.update cid (c\<lparr>title := newTitle\<rparr>) prev)"

section \<open>Other handlers\<close>

text \<open>
  A turn is an asynchronous function: while it waits for the remote service other
  handlers of the component run, each one to its end or to its own next wait. These are
  the state changes they make: \<open>handleStop\<close>; \<open>addMessageToCurrentChat\<close> with the
  current id of the closure that calls it (from \<open>recognition.onerror\<close>,
  \<open>reader.onerror\<close> and the rejections of \<open>handleFileChange\<close>); \<open>deleteChat\<close>,
  \<open>startNewChat\<close>, \<open>switchChat\<close>, \<open>handleRemoveImage\<close>; the setters of the input
  and of the staging slot; and the steps of another call of \<open>submitMessage\<close> (the speech
  callback calls one through an old closure, whose \<open>isLoading\<close> may be false while a
  turn runs): its start up to the first wait, its updates of the last message, its
  replacing of the placeholder, its title, and its \<open>finally\<close>.
\<close>

datatype other_step =
    StopPressed
  | AddMessage chat_id Message
  | DeleteChat nat chat_id
  | StartNewChat nat
  | SwitchChat chat_id
  | RemoveImage
  | InputSet jsstring
  | FileSelected File
  | PreviewLoaded "jsstring option"
  | TurnBegins chat_id Message
  | TurnUpdates chat_id jsstring bool
  | TurnReplaces chat_id Message
  | TurnTitled chat_id jsstring
  | TurnEnds

fun otherStep :: "other_step \<Rightarrow> app_state \<Rightarrow> app_state" where
  "otherStep StopPressed s = handleStop s"
| "otherStep (AddMessage k m) s = s\<lparr>conversations := pushMessages k [m] (conversations s)\<rparr>"
| "otherStep (DeleteChat now k) s = deleteChat now k s"
| "otherStep (StartNewChat now) s = startNewChat now s"
| "otherStep (SwitchChat k) s = switchChat k s"
| "otherStep RemoveImage s = handleRemoveImage s"
| "otherStep (InputSet t) s = s\<lparr>userInput := t\<rparr>"
| "otherStep (FileSelected f) s = s\<lparr>imageFile := Some f\<rparr>"
| "otherStep (PreviewLoaded p) s = s\<lparr>imagePreview := p\<rparr>"
| "otherStep (TurnBegins k userMessage) s =
     s\<lparr>userInput := [], imageFile := None, imagePreview := None, isStopped := False,
       conversations := pushMessages k [userMessage, placeholder] (conversations s),
       isLoading := True\<rparr>"
| "otherStep (TurnUpdates k contentChunk isDone) s =
     s\<lparr>conversations := updateLastMessage (Some k) contentChunk isDone (conversations s)\<rparr>"
| "otherStep (TurnReplaces k m) s = s\<lparr>conversations := popPush k m (conversations s)\<rparr>"
| "otherStep (TurnTitled k t) s = s\<lparr>conversations := setTitle k t (conversations s)\<rparr>"
| "otherStep TurnEnds s = s\<lparr>isLoading := False\<rparr>"

definition otherSteps :: "other_step list \<Rightarrow> app_state \<Rightarrow> app_state" where
  "otherSteps steps s = fold otherStep steps s"

section \<open>The remote service\<close>

text \<open>
  A remote call either throws an exception with a message or returns. The behaviour of
  the service during one turn is a parameter: every call the turn can make has its
  outcome in \<open>remote\<close>. \<open>API_KEY\<close> says whether \<open>process.env.API_KEY\<close> is set.
  \<open>generateImages\<close> returns the bytes of the first image; a response without one makes
  the code that reads it throw, which is an outcome \<open>Throws\<close> here. \<open>fileToBase64\<close>
  is the reading of the attached file. \<open>meanwhile\<close> holds the steps of other handlers
  that run while the turn waits for the answer to its request (for the streaming call:
  for the stream to open), \<open>whileClosing\<close> those that run while the turn waits for
  the stream to close after it left the loop by \<open>break\<close>.
\<close>

datatype 'a outcome = Throws jsstring | Returns 'a

record Part =
  part_text :: "jsstring option"
  inlineData :: "(jsstring \<times> jsstring) option"

record GenerateContentResponse =
  candidates :: "Part list list option"
  response_text :: "jsstring option"

text \<open>
  What happens while the turn reads the stream, in order of time: a chunk arrives, the
  stream fails, or another handler runs. The list ending is the stream ending.
\<close>

datatype stream_event = Chunk jsstring | StreamThrows jsstring | Meanwhile other_step

record remote =
  API_KEY :: bool
  titleResponse :: "jsstring outcome"
  meanwhile :: "other_step list"
  generateImages :: "jsstring outcome"
  fileToBase64 :: "jsstring outcome"
  generateContent :: "GenerateContentResponse outcome"
  sendMessageStream :: "stream_event list outcome"
  whileClosing :: "other_step list"

text \<open>The requests a turn sends, logged in order.\<close>

datatype remote_call =
    TitleCall jsstring
  | GenerateImagesCall jsstring
  | GenerateContentCall jsstring jsstring "jsstring option"
  | SendMessageStreamCall "(MessageRole \<times> jsstring) list" jsstring

section \<open>Title generator\<close>

definition getChatTitle :: "remote \<Rightarrow> jsstring \<Rightarrow> jsstring \<times> remote_call list" where
  "getChatTitle env firstMessage =
     (if \<not> API_KEY env then (js ''New Chat'', [])
      else (case titleResponse env of
              Throws _ \<Rightarrow> (js ''New Chat'', [TitleCall firstMessage])
            | Returns t \<Rightarrow>
                (let cleaned = trim (filter (\<lambda>c. c \<noteq> 0x22 \<and> c \<noteq> 0x27) t)
                 in (if truthy cleaned then cleaned else js ''New Chat'',
                     [TitleCall firstMessage]))))"

text \<open>
  The title request of \<open>submitMessage\<close>. Its \<open>then\<close> callback only writes the title,
  which no other step of the turn reads, so it is applied where the request is made.
\<close>

definition titleStep ::
  "remote \<Rightarrow> chat_id \<Rightarrow> bool \<Rightarrow> Message \<Rightarrow> app_state \<Rightarrow> app_state \<times> remote_call list" where
  "titleStep env localChatId isFirstMessage userMessage s =
     (if isFirstMessage \<and> truthy (content userMessage)
         \<and> \<not> startsWith (trim (content userMessage)) (js ''/generate'')
      then (let (newTitle, calls) = getChatTitle env (content userMessage)
            in (s\<lparr>conversations := setTitle localChatId newTitle (conversations s)\<rparr>, calls))
      else (s, []))"

section \<open>Turn orchestrator\<close>

datatype path = ImageGeneration | ImageUnderstanding File | PlainText

text \<open>The \<open>if\<close> / \<open>else if\<close> / \<open>else\<close> of the \<open>try\<close> block.\<close>

definition selectPath :: "jsstring \<Rightarrow> File option \<Rightarrow> path" where
  "selectPath messageContent localImageFile =
     (if startsWith (trim messageContent) (js ''/generate '') then ImageGeneration
      else (case localImageFile of
              Some file \<Rightarrow> ImageUnderstanding file
            | None \<Rightarrow> PlainText))"

text \<open>
  Each path returns the exception its code threw, if any, with the state reached and
  the requests sent. The steps of \<open>meanwhile\<close> run while the path waits, before it
  handles the answer.
\<close>

type_synonym attempt = "jsstring option \<times> app_state \<times> remote_call list"

definition imageGeneration :: "remote \<Rightarrow> chat_id \<Rightarrow> jsstring \<Rightarrow> app_state \<Rightarrow> attempt" where
  "imageGeneration env localChatId messageContent s =
     (let prompt = trim (substring messageContent (length (js ''/generate '')))
      in if \<not> truthy prompt
         then (Some (js ''Please provide a prompt for image generation.''), s, [])
         else (let s' = otherSteps (meanwhile env) s
               in (case generateImages env of
                     Throws e \<Rightarrow> (Some e, s', [GenerateImagesCall prompt])
                   | Returns base64ImageBytes \<Rightarrow>
                       (let modelMessage =
                              \<lparr>role = MODEL, content = js ''> '' @ prompt,
                               imageUrl =
                                 Some (js ''data:image/jpeg;base64,'' @ base64ImageBytes)\<rparr>
                        in (None,
                            s'\<lparr>conversations :=
                                 popPush localChatId modelMessage (conversations s')\<rparr>,
                            [GenerateImagesCall prompt])))))"

definition readPart :: "jsstring \<times> jsstring option \<Rightarrow> Part \<Rightarrow> jsstring \<times> jsstring option" where
  "readPart acc part =
     (case acc of (responseText, responseImageUrl) \<Rightarrow>
        (case part_text part of
           Some t \<Rightarrow>
             if truthy t then (responseText @ t, responseImageUrl)
             else (case inlineData part of
                     Some (mimeType, d) \<Rightarrow>
                       (responseText, Some (js ''data:'' @ mimeType @ js '';base64,'' @ d))
                   | None \<Rightarrow> acc)
         | None \<Rightarrow>
             (case inlineData part of
                Some (mimeType, d) \<Rightarrow>
                  (responseText, Some (js ''data:'' @ mimeType @ js '';base64,'' @ d))
              | None \<Rightarrow> acc)))"

definition readResponse :: "GenerateContentResponse \<Rightarrow> jsstring \<times> jsstring option" where
  "readResponse response =
     (case candidates response of
        Some (parts # _) \<Rightarrow> foldl readPart ([], None) parts
      | _ \<Rightarrow>
          (case response_text response of
             Some t \<Rightarrow> (if truthy t then t else js ''An unexpected error occurred.'', None)
           | None \<Rightarrow> (js ''An unexpected error occurred.'', None)))"

definition understandingMessage :: "GenerateContentResponse \<Rightarrow> Message" where
  "understandingMessage response =
     (case readResponse response of (responseText, responseImageUrl) \<Rightarrow>
        \<lparr>role = MODEL,
         content =
           (if truthy responseText then responseText
            else (case responseImageUrl of
                    Some u \<Rightarrow> if truthy u then [] else js ''Image processed successfully.''
                  | None \<Rightarrow> js ''Image processed successfully.'')),
         imageUrl = responseImageUrl\<rparr>)"

definition imageUnderstanding ::
  "remote \<Rightarrow> chat_id \<Rightarrow> File \<Rightarrow> jsstring \<Rightarrow> app_state \<Rightarrow> attempt" where
  "imageUnderstanding env localChatId localImageFile messageContent s =
     (let s' = otherSteps (meanwhile env) s
      in (case fileToBase64 env of
            Throws e \<Rightarrow> (Some e, s', [])
          | Returns base64Data \<Rightarrow>
              (let call = GenerateContentCall (file_type localImageFile) base64Data
                            (if truthy messageContent then Some messageContent else None)
               in (case generateContent env of
                     Throws e \<Rightarrow> (Some e, s', [call])
                   | Returns response \<Rightarrow>
                       (None,
                        s'\<lparr>conversations :=
                             popPush localChatId (understandingMessage response)
                               (conversations s')\<rparr>,
                        [call])))))"

text \<open>
  The history of the streaming call:
  \<open>messages.filter(m => m.role !== ERROR && !m.imageUrl).slice(0, -2).map(...)\<close>.
\<close>

definition inTextHistory :: "Message \<Rightarrow> bool" where
  "inTextHistory m =
     (role m \<noteq> ERROR \<and> (case imageUrl m of None \<Rightarrow> True | Some u \<Rightarrow> \<not> truthy u))"

definition chatHistory :: "Message list \<Rightarrow> (MessageRole \<times> jsstring) list" where
  "chatHistory ms = map (\<lambda>m. (role m, content m)) (butlast (butlast (filter inTextHistory ms)))"

text \<open>
  The \<open>for await\<close> loop: the flag is polled when a chunk has arrived; a failing
  stream throws out of the loop; other handlers run between the chunks. Leaving the
  loop by \<open>break\<close> waits for the stream to close, and the steps \<open>closing\<close> run
  during that wait.
\<close>

fun consumeStream ::
  "chat_id \<Rightarrow> other_step list \<Rightarrow> stream_event list \<Rightarrow> app_state \<Rightarrow> jsstring option \<times> app_state"
where
  "consumeStream cid closing [] s = (None, s)"
| "consumeStream cid closing (StreamThrows e # events) s = (Some e, s)"
| "consumeStream cid closing (Meanwhile step # events) s =
     consumeStream cid closing events (otherStep step s)"
| "consumeStream cid closing (Chunk textChunk # events) s =
     (if isStopped s then (None, otherSteps closing s)
      else consumeStream cid closing events
             (s\<lparr>conversations := updateLastMessage (Some cid) textChunk False (conversations s)\<rparr>))"

text \<open>
  The streaming path. \<open>seenMessages\<close> is what \<open>conversations[localChatId].messages\<close>
  gives when the history is built. The read goes through the closure of the turn and
  comes before the first wait of the turn, when the update that pushes the user message
  and the placeholder is queued but has not run: the array holds the messages the
  conversation had before the turn.
\<close>

definition textStreaming ::
  "remote \<Rightarrow> chat_id \<Rightarrow> Message list \<Rightarrow> Message \<Rightarrow> app_state \<Rightarrow> attempt" where
  "textStreaming env localChatId seenMessages userMessage s =
     (let call = SendMessageStreamCall (chatHistory seenMessages) (content userMessage);
          s' = otherSteps (meanwhile env) s
      in (case sendMessageStream env of
            Throws e \<Rightarrow> (Some e, s', [call])
          | Returns events \<Rightarrow>
              (case consumeStream localChatId (whileClosing env) events s' of
                 (Some e, s'') \<Rightarrow> (Some e, s'', [call])
               | (None, s'') \<Rightarrow>
                   (None,
                    s''\<lparr>conversations :=
                          updateLastMessage (Some localChatId)
                            (if isStopped s'' then STOP_MARKER else []) True
                            (conversations s'')\<rparr>,
                    [call]))))"

definition tryBlock ::
  "remote \<Rightarrow> chat_id \<Rightarrow> File option \<Rightarrow> Message list \<Rightarrow> Message \<Rightarrow> app_state \<Rightarrow> attempt" where
  "tryBlock env localChatId localImageFile seenMessages userMessage s =
     (if \<not> API_KEY env then (Some (js ''API_KEY environment variable not set.''), s, [])
      else (case selectPath (content userMessage) localImageFile of
              ImageGeneration \<Rightarrow> imageGeneration env localChatId (content userMessage) s
            | ImageUnderstanding file \<Rightarrow>
                imageUnderstanding env localChatId file (content userMessage) s
            | PlainText \<Rightarrow> textStreaming env localChatId seenMessages userMessage s))"

definition friendlyMessage :: "File option \<Rightarrow> jsstring \<Rightarrow> jsstring \<Rightarrow> jsstring" where
  "friendlyMessage localImageFile messageContent e =
     (if localImageFile \<noteq> None
      then js ''Sorry, I couldn't process that image. It might be in an unsupported format or exceed size limits. Please try another image. (Details: '' @ e @ js '')''
      else if startsWith (trim messageContent) (js ''/generate '')
      then js ''Sorry, the image could not be generated. Please adjust your prompt or try again later. (Details: '' @ e @ js '')''
      else js ''An error occurred: '' @ e)"

definition errorMessage :: "File option \<Rightarrow> jsstring \<Rightarrow> jsstring \<Rightarrow> Message" where
  "errorMessage localImageFile messageContent e =
     \<lparr>role = ERROR, content = friendlyMessage localImageFile messageContent e, imageUrl = None\<rparr>"

text \<open>The \<open>catch\<close> and \<open>finally\<close> of the turn.\<close>

definition finishTurn ::
  "chat_id \<Rightarrow> File option \<Rightarrow> jsstring \<Rightarrow> attempt \<Rightarrow> app_state" where
  "finishTurn localChatId localImageFile messageContent att =
     (case att of
        (None, s, _) \<Rightarrow> s\<lparr>isLoading := False\<rparr>
      | (Some e, s, _) \<Rightarrow>
          s\<lparr>conversations :=
              popPush localChatId (errorMessage localImageFile messageContent e) (conversations s),
            isLoading := False\<rparr>)"

text \<open>
  How a call of \<open>submitMessage\<close> ends: the promise resolves, with the state reached and
  the requests sent, or it is rejected by an exception thrown outside the \<open>try\<close> block
  (reading \<open>messages\<close> of a conversation that the closure does not hold).
\<close>

datatype turn_end = Rejected app_state | Resolved app_state "remote_call list"

fun stateOf :: "turn_end \<Rightarrow> app_state" where
  "stateOf (Rejected s) = s"
| "stateOf (Resolved s calls) = s"

fun callsOf :: "turn_end \<Rightarrow> remote_call list" where
  "callsOf (Rejected s) = []"
| "callsOf (Resolved s calls) = calls"

definition userMessageOf :: "jsstring \<Rightarrow> app_state \<Rightarrow> Message" where
  "userMessageOf messageContent seen =
     \<lparr>role = USER, content = messageContent, imageUrl = imagePreview seen\<rparr>"

text \<open>The live state of a turn after the user message and the placeholder are pushed.\<close>

definition pushedState :: "jsstring \<Rightarrow> chat_id \<Rightarrow> app_state \<Rightarrow> app_state \<Rightarrow> app_state" where
  "pushedState messageContent cid seen s =
     s\<lparr>userInput := [], imageFile := None, imagePreview := None, isStopped := False,
       conversations :=
         pushMessages cid [userMessageOf messageContent seen, placeholder] (conversations s),
       isLoading := True\<rparr>"

text \<open>
  \<open>submitMessage\<close>. The guard, the local copies, \<open>isFirstMessage\<close> and the history
  are read from \<open>seen\<close>, the hooks in the closure of the call; the updates go to the
  live state \<open>s\<close>. A call from a handler of the last render has \<open>seen = s\<close>.
\<close>

definition submitMessage :: "remote \<Rightarrow> jsstring \<Rightarrow> app_state \<Rightarrow> app_state \<Rightarrow> turn_end" where
  "submitMessage env messageContent seen s =
     (if (\<not> truthy (trim messageContent) \<and> imageFile seen = None) \<or> isLoading seen
      then Resolved s []
      else (case currentChatId seen of
              None \<Rightarrow> Resolved s []
            | Some localChatId \<Rightarrow>
                (let localImageFile = imageFile seen;
                     userMessage = userMessageOf messageContent seen;
                     s1 = s\<lparr>userInput := [], imageFile := None, imagePreview := None\<rparr>
                 in (case map_of (conversations seen) localChatId of
                       None \<Rightarrow> Rejected s1
                     | Some conv \<Rightarrow>
                         (let isFirstMessage = (messages conv = []);
                              s2 = s1\<lparr>isStopped := False\<rparr>;
                              s3 = s2\<lparr>conversations :=
                                        pushMessages localChatId [userMessage, placeholder]
                                          (conversations s2)\<rparr>;
                              s4 = s3\<lparr>isLoading := True\<rparr>;
                              (s5, titleCalls) =
                                titleStep env localChatId isFirstMessage userMessage s4;
                              att = tryBlock env localChatId localImageFile (messages conv)
                                      userMessage s5
                          in Resolved
                               (finishTurn localChatId localImageFile messageContent att)
                               (titleCalls @ snd (snd att)))))))"

section \<open>Notions for the statements\<close>

text \<open>The messages and the title of a conversation of the store, if it is there.\<close>

definition messagesOf :: "chat_id \<Rightarrow> app_state \<Rightarrow> Message list option" where
  "messagesOf cid s = map_option messages (map_of (conversations s) cid)"

definition titleOf :: "chat_id \<Rightarrow> app_state \<Rightarrow> jsstring option" where
  "titleOf cid s = map_option title (map_of (conversations s) cid)"

text \<open>What a step of another handler does to the stop flag.\<close>

fun flagAfter :: "other_step \<Rightarrow> bool \<Rightarrow> bool" where
  "flagAfter StopPressed stopped = True"
| "flagAfter (TurnBegins k userMessage) stopped = False"
| "flagAfter step stopped = stopped"

definition flagAtStream :: "remote \<Rightarrow> bool" where
  "flagAtStream env = fold flagAfter (meanwhile env) False"

text \<open>
  The exception with which a stream makes the loop end, if it does: a failure of the
  stream that comes before the loop has seen the stop flag at the arrival of a chunk.
  \<open>stopped\<close> is the flag at the start.
\<close>

fun streamFailure :: "bool \<Rightarrow> stream_event list \<Rightarrow> jsstring option" where
  "streamFailure stopped [] = None"
| "streamFailure stopped (StreamThrows e # events) = Some e"
| "streamFailure stopped (Meanwhile step # events) = streamFailure (flagAfter step stopped) events"
| "streamFailure stopped (Chunk t # events) =
     (if stopped then None else streamFailure False events)"

text \<open>
  The text of the chunks that the loop applies to the last message, and the flag as the
  turn finds it when it tests it after the loop.
\<close>

fun appliedText :: "bool \<Rightarrow> stream_event list \<Rightarrow> jsstring" where
  "appliedText stopped [] = []"
| "appliedText stopped (StreamThrows e # events) = []"
| "appliedText stopped (Meanwhile step # events) = appliedText (flagAfter step stopped) events"
| "appliedText stopped (Chunk t # events) =
     (if stopped then [] else t @ appliedText False events)"

fun flagAtCheck :: "other_step list \<Rightarrow> bool \<Rightarrow> stream_event list \<Rightarrow> bool" where
  "flagAtCheck closing stopped [] = stopped"
| "flagAtCheck closing stopped (StreamThrows e # events) = stopped"
| "flagAtCheck closing stopped (Meanwhile step # events) =
     flagAtCheck closing (flagAfter step stopped) events"
| "flagAtCheck closing stopped (Chunk t # events) =
     (if stopped then fold flagAfter closing True else flagAtCheck closing False events)"



text \<open>The steps of other handlers that run from the start of the loop to its end.\<close>

fun stepsInLoop :: "other_step list \<Rightarrow> bool \<Rightarrow> stream_event list \<Rightarrow> other_step list" where
  "stepsInLoop closing stopped [] = []"
| "stepsInLoop closing stopped (StreamThrows e # events) = []"
| "stepsInLoop closing stopped (Meanwhile step # events) =
     step # stepsInLoop closing (flagAfter step stopped) events"
| "stepsInLoop closing stopped (Chunk t # events) =
     (if stopped then closing else stepsInLoop closing False events)"

text \<open>The steps of other handlers that run between the start and the end of a turn.\<close>

definition stepsInTurn :: "remote \<Rightarrow> path \<Rightarrow> other_step list" where
  "stepsInTurn env p =
     (if \<not> API_KEY env then []
      else (case p of
              ImageGeneration \<Rightarrow> meanwhile env
            | ImageUnderstanding file \<Rightarrow> meanwhile env
            | PlainText \<Rightarrow>
                (case sendMessageStream env of
                   Throws e \<Rightarrow> meanwhile env
                 | Returns events \<Rightarrow>
                     meanwhile env @ stepsInLoop (whileClosing env) (flagAtStream env) events)))"

text \<open>
  A step that leaves the messages of the conversation \<open>cid\<close> as they are, if the
  conversation is in the store; and a step that leaves all titles as they are.
\<close>

fun quiet :: "chat_id \<Rightarrow> other_step \<Rightarrow> bool" where
  "quiet cid (AddMessage k m) = (k \<noteq> cid)"
| "quiet cid (DeleteChat now k) = (k \<noteq> cid)"
| "quiet cid (StartNewChat now) = (ChatId now \<noteq> cid)"
| "quiet cid (TurnBegins k userMessage) = (k \<noteq> cid)"
| "quiet cid (TurnUpdates k contentChunk isDone) = (k \<noteq> cid)"
| "quiet cid (TurnReplaces k m) = (k \<noteq> cid)"
| "quiet cid step = True"

fun keepsTitles :: "other_step \<Rightarrow> bool" where
  "keepsTitles (DeleteChat now k) = False"
| "keepsTitles (StartNewChat now) = False"
| "keepsTitles (TurnTitled k t) = False"
| "keepsTitles step = True"

text \<open>The exception the remote service raises to the calls of a path, if any.\<close>

definition remoteFailure :: "remote \<Rightarrow> path \<Rightarrow> jsstring option" where
  "remoteFailure env p =
     (case p of
        ImageGeneration \<Rightarrow>
          (case generateImages env of Throws e \<Rightarrow> Some e | Returns _ \<Rightarrow> None)
      | ImageUnderstanding file \<Rightarrow>
          (case fileToBase64 env of
             Throws e \<Rightarrow> Some e
           | Returns _ \<Rightarrow>
               (case generateContent env of Throws e \<Rightarrow> Some e | Returns _ \<Rightarrow> None))
      | PlainText \<Rightarrow>
          (case sendMessageStream env of
             Throws e \<Rightarrow> Some e
           | Returns events \<Rightarrow> streamFailure (flagAtStream env) events))"



text \<open>
  A message that is still being generated, with \<open>t\<close> the text received so far: it
  holds the sentinel before the first chunk, and the text with the cursor glyph after.
\<close>

definition pending :: "jsstring \<Rightarrow> Message \<Rightarrow> bool" where
  "pending t m =
     (role m = MODEL \<and> (content m = LOADING_INDICATOR_CONTENT \<and> t = [] \<or> content m = t @ GLYPH))"

text \<open>
  The turn takes the sentinel string itself from the remote service as the text of
  its answer: with credentials, as the text of an image-understanding response that
  arrived, or as the whole text of the chunks it applied from a stream that did not
  fail, in a turn that does not find the flag set after the loop.
\<close>

definition echoesSentinel :: "remote \<Rightarrow> path \<Rightarrow> bool" where
  "echoesSentinel env p =
     (API_KEY env \<and>
      (case p of
         ImageGeneration \<Rightarrow> False
       | ImageUnderstanding file \<Rightarrow>
           (case fileToBase64 env of
              Throws _ \<Rightarrow> False
            | Returns _ \<Rightarrow>
                (case generateContent env of
                   Returns response \<Rightarrow> fst (readResponse response) = LOADING_INDICATOR_CONTENT
                 | Throws _ \<Rightarrow> False))
       | PlainText \<Rightarrow>
           (case sendMessageStream env of
              Returns events \<Rightarrow>
                streamFailure (flagAtStream env) events = None
                \<and> \<not> flagAtCheck (whileClosing env) (flagAtStream env) events
                \<and> appliedText (flagAtStream env) events = LOADING_INDICATOR_CONTENT
            | Throws _ \<Rightarrow> False)))"


text \<open>
  A state with every title blanked: two states that differ in titles only have the
  same image under \<open>untitled\<close>.
\<close>

definition untitle :: "Conversations \<Rightarrow> Conversations" where
  "untitle convs = map (\<lambda>(k, c). (k, c\<lparr>title := []\<rparr>)) convs"

definition untitled :: "app_state \<Rightarrow> app_state" where
  "untitled s = s\<lparr>conversations := untitle (conversations s)\<rparr>"

section \<open>Persistence\<close>

text \<open>
  The effect that saves the state works on a copy: \<open>JSON.parse(JSON.stringify(conversations))\<close>
  builds new objects, and \<open>delete msg.imageUrl\<close> changes the message objects of the
  copy in place. That the store in memory keeps its images depends on the copy not
  sharing objects with it, so here message objects live in a heap, a list indexed by
  address, and a conversation object holds the addresses of its messages.
\<close>

type_synonym ref = nat

type_synonym heap = "Message list"

record ConversationObject =
  obj_id :: chat_id
  obj_title :: jsstring
  obj_messages :: "ref list"

type_synonym ObjectStore = "(chat_id \<times> ConversationObject) list"

text \<open>
  \<open>JSON.stringify\<close> reads the object graph into a value; the string it returns is
  taken as that value. A store is valid in a heap when every address it holds is
  allocated.
\<close>

definition conversationAt :: "heap \<Rightarrow> ConversationObject \<Rightarrow> Conversation" where
  "conversationAt h c =
     \<lparr>id_conv = obj_id c, title = obj_title c, messages = map (\<lambda>r. h ! r) (obj_messages c)\<rparr>"

definition stringify :: "heap \<Rightarrow> ObjectStore \<Rightarrow> Conversations" where
  "stringify h store = map (\<lambda>(k, c). (k, conversationAt h c)) store"

definition validStore :: "heap \<Rightarrow> ObjectStore \<Rightarrow> bool" where
  "validStore h store = (\<forall>(k, c) \<in> set store. \<forall>r \<in> set (obj_messages c). r < length h)"

text \<open>\<open>JSON.parse\<close> allocates a new message object, at the end of the heap, for each message read.\<close>

fun parse :: "heap \<Rightarrow> Conversations \<Rightarrow> heap \<times> ObjectStore" where
  "parse h [] = (h, [])"
| "parse h ((k, c) # rest) =
     (let refs = [length h ..< length h + length (messages c)];
          (h', objects) = parse (h @ messages c) rest
      in (h', (k, \<lparr>obj_id = id_conv c, obj_title = title c, obj_messages = refs\<rparr>) # objects))"

text \<open>\<open>delete msg.imageUrl\<close> on the object at an address, and the two nested loops over the copy.\<close>

definition deleteImageUrl :: "ref \<Rightarrow> heap \<Rightarrow> heap" where
  "deleteImageUrl r h = (if r < length h then h[r := (h ! r)\<lparr>imageUrl := None\<rparr>] else h)"

definition deleteImageUrls :: "ObjectStore \<Rightarrow> heap \<Rightarrow> heap" where
  "deleteImageUrls store h = fold (\<lambda>(k, c) h'. fold deleteImageUrl (obj_messages c) h') store h"

text \<open>The copy, stripped, and the value that is written under \<open>aiChatConversations\<close>.\<close>

definition conversationsToSave :: "heap \<Rightarrow> ObjectStore \<Rightarrow> heap \<times> Conversations" where
  "conversationsToSave h store =
     (let (h1, copy) = parse h (stringify h store);
          h2 = deleteImageUrls copy h1
      in (h2, stringify h2 copy))"

text \<open>
  Browser storage with its four keys. \<open>quotaLeft\<close> says whether \<open>setItem\<close> accepts
  the conversations; when it throws, the \<open>catch\<close> logs the error and nothing is written.
\<close>

datatype Theme = Light | Dark | System

record Storage =
  aiChatConversations :: "Conversations option"
  aiChatCurrentId :: "chat_id option"
  aiChatTheme :: "Theme option"
  aiChatTtsEnabled :: "bool option"

definition persist ::
  "bool \<Rightarrow> heap \<Rightarrow> ObjectStore \<Rightarrow> chat_id option \<Rightarrow> Theme \<Rightarrow> bool \<Rightarrow> Storage \<Rightarrow> heap \<times> Storage" where
  "persist quotaLeft h store current theme isTtsEnabled storage =
     (let (h', toSave) = conversationsToSave h store
      in if \<not> quotaLeft then (h', storage)
         else (h',
               storage\<lparr>aiChatConversations := Some toSave,
                 aiChatCurrentId :=
                   (case current of
                      None \<Rightarrow> aiChatCurrentId storage
                    | Some cid \<Rightarrow> Some cid),
                 aiChatTheme := Some theme,
                 aiChatTtsEnabled := Some isTtsEnabled\<rparr>))"

text \<open>A conversation map with the image reference of every message removed.\<close>

definition withoutImages :: "Conversations \<Rightarrow> Conversations" where
  "withoutImages convs =
     map (\<lambda>(k, c). (k, c\<lparr>messages := map (\<lambda>m. m\<lparr>imageUrl := None\<rparr>) (messages c)\<rparr>)) convs"

text \<open>The addresses a store holds.\<close>

definition refsOf :: "ObjectStore \<Rightarrow> ref set" where
  "refsOf store = (\<Union>(k, c) \<in> set store. set (obj_messages c))"

section \<open>Example values\<close>

definition chat :: "nat \<Rightarrow> Message list \<Rightarrow> chat_id \<times> Conversation" where
  "chat t ms = (ChatId t, \<lparr>id_conv = ChatId t, title = js ''New Chat'', messages = ms\<rparr>)"

definition idle :: "Conversations \<Rightarrow> chat_id option \<Rightarrow> app_state" where
  "idle store current =
     \<lparr>conversations = store, currentChatId = current, userInput = [], isLoading = False,
      imageFile = None, imagePreview = None, isStopped = False\<rparr>"

definition said :: "MessageRole \<Rightarrow> jsstring \<Rightarrow> Message" where
  "said r t = \<lparr>role = r, content = t, imageUrl = None\<rparr>"

text \<open>A service with credentials that answers the streaming call only.\<close>

definition streaming :: "stream_event list \<Rightarrow> remote" where
  "streaming events =
     \<lparr>API_KEY = True, titleResponse = Returns (js ''Greeting''), meanwhile = [],
      generateImages = Throws (js ''offline''), fileToBase64 = Throws (js ''offline''),
      generateContent = Throws (js ''offline''), sendMessageStream = Returns events,
      whileClosing = []\<rparr>"


definition photo :: File where
  "photo = \<lparr>file_type = js ''image/png'', file_size = 2048\<rparr>"

section \<open>Facts about strings\<close>

lemma LOADING_last: "last LOADING_INDICATOR_CONTENT = 0x5F"
  by (simp add: LOADING_INDICATOR_CONTENT_def js_def)

lemma LOADING_not_Nil: "LOADING_INDICATOR_CONTENT \<noteq> []"
  by (simp add: LOADING_INDICATOR_CONTENT_def js_def)

lemma glyph_not_LOADING: "t @ GLYPH \<noteq> LOADING_INDICATOR_CONTENT"
proof
  assume "t @ GLYPH = LOADING_INDICATOR_CONTENT"
  then have "last (t @ GLYPH) = last LOADING_INDICATOR_CONTENT" by simp
  then show False by (simp add: LOADING_last GLYPH_def)
qed

lemma endsWith_glyph: "endsWith (t @ GLYPH) GLYPH"
  by (simp add: endsWith_def GLYPH_def)

lemma butlast_glyph: "butlast (t @ GLYPH) = t"
  by (simp add: GLYPH_def)

section \<open>Facts about the assembler\<close>

lemma assemble_sentinel:
  "content m = LOADING_INDICATOR_CONTENT \<Longrightarrow>
   assemble chunk isDone m = m\<lparr>content := chunk @ (if isDone then [] else GLYPH)\<rparr>"
  by (simp add: assemble_def)

lemma assemble_streaming:
  "content m = t @ GLYPH \<Longrightarrow>
   assemble chunk isDone m = m\<lparr>content := t @ chunk @ (if isDone then [] else GLYPH)\<rparr>"
  by (simp add: assemble_def glyph_not_LOADING endsWith_glyph butlast_glyph)

lemma updateLastMessage_last:
  assumes "map_of prev cid = Some current"
    and "messages current = earlier @ [m]"
    and "role m = MODEL"
  shows "updateLastMessage (Some cid) chunk isDone prev =
         AList.update cid (current\<lparr>messages := earlier @ [assemble chunk isDone m]\<rparr>) prev"
  using assms by (simp add: updateLastMessage_def)

lemma map_of_updateLastMessage:
  assumes "map_of prev cid = Some current"
    and "messages current = earlier @ [m]"
    and "role m = MODEL"
  shows "map_of (updateLastMessage (Some cid) chunk isDone prev) cid =
         Some (current\<lparr>messages := earlier @ [assemble chunk isDone m]\<rparr>)"
  using assms by (simp add: updateLastMessage_last update_conv')

text \<open>
  While a stream is open the last message holds the text so far followed by one
  cursor glyph: the invariant of the chunk loop, stated for a message that already
  left the sentinel.
\<close>

lemma applyChunks_streaming:
  assumes "map_of prev cid = Some current"
    and "messages current = earlier @ [m]"
    and "role m = MODEL"
    and "content m = t @ GLYPH"
  shows "map_of (applyChunks cid chunks prev) cid =
         Some (current\<lparr>messages := earlier @ [m\<lparr>content := t @ concat chunks @ GLYPH\<rparr>]\<rparr>)"
  using assms
proof (induction chunks arbitrary: prev current m t)
  case Nil
  then show ?case by (simp add: applyChunks_def)
next
  case (Cons chunk chunks)
  let ?m' = "m\<lparr>content := (t @ chunk) @ GLYPH\<rparr>"
  let ?current' = "current\<lparr>messages := earlier @ [?m']\<rparr>"
  let ?prev' = "updateLastMessage (Some cid) chunk False prev"
  have step: "map_of ?prev' cid = Some ?current'"
    using Cons.prems by (simp add: map_of_updateLastMessage assemble_streaming)
  have "map_of (applyChunks cid chunks ?prev') cid =
        Some (?current'\<lparr>messages := earlier @ [?m'\<lparr>content := (t @ chunk) @ concat chunks @ GLYPH\<rparr>]\<rparr>)"
    by (rule Cons.IH [OF step]) (simp_all add: Cons.prems)
  then show ?case by (simp add: applyChunks_def)
qed

lemma applyChunks_sentinel:
  assumes "map_of prev cid = Some current"
    and "messages current = earlier @ [m]"
    and "role m = MODEL"
    and "content m = LOADING_INDICATOR_CONTENT"
    and "chunks \<noteq> []"
  shows "map_of (applyChunks cid chunks prev) cid =
         Some (current\<lparr>messages := earlier @ [m\<lparr>content := concat chunks @ GLYPH\<rparr>]\<rparr>)"
proof -
  obtain chunk rest where chunks: "chunks = chunk # rest"
    using assms(5) by (cases chunks) auto
  let ?m' = "m\<lparr>content := chunk @ GLYPH\<rparr>"
  let ?current' = "current\<lparr>messages := earlier @ [?m']\<rparr>"
  let ?prev' = "updateLastMessage (Some cid) chunk False prev"
  have step: "map_of ?prev' cid = Some ?current'"
    using assms by (simp add: map_of_updateLastMessage assemble_sentinel)
  have "map_of (applyChunks cid rest ?prev') cid =
        Some (?current'\<lparr>messages := earlier @ [?m'\<lparr>content := chunk @ concat rest @ GLYPH\<rparr>]\<rparr>)"
    by (rule applyChunks_streaming [OF step]) (simp_all add: assms)
  then show ?thesis by (simp add: applyChunks_def chunks)
qed

section \<open>Facts about the store\<close>

lemma messagesOf_pushMessages:
  "messagesOf cid s = Some ms \<Longrightarrow>
   messagesOf cid (s\<lparr>conversations := pushMessages cid new (conversations s)\<rparr>) = Some (ms @ new)"
  by (auto simp: messagesOf_def pushMessages_def update_conv' split: option.splits)

lemma messagesOf_popPush:
  "messagesOf cid s = Some ms \<Longrightarrow>
   messagesOf cid (s\<lparr>conversations := popPush cid m (conversations s)\<rparr>) = Some (butlast ms @ [m])"
  by (auto simp: messagesOf_def popPush_def update_conv' split: option.splits)

lemma messagesOf_setTitle:
  "messagesOf cid (s\<lparr>conversations := setTitle cid' t (conversations s)\<rparr>) = messagesOf cid s"
  by (auto simp: messagesOf_def setTitle_def update_conv' split: option.splits)

lemma messagesOf_updateLastMessage:
  "messagesOf cid s = Some (earlier @ [m]) \<Longrightarrow> role m = MODEL \<Longrightarrow>
   messagesOf cid (s\<lparr>conversations := updateLastMessage (Some cid) chunk isDone (conversations s)\<rparr>)
     = Some (earlier @ [assemble chunk isDone m])"
  by (auto simp: messagesOf_def updateLastMessage_def update_conv' split: option.splits)

lemma assemble_pending:
  "pending t m \<Longrightarrow>
   assemble chunk isDone m = m\<lparr>content := t @ chunk @ (if isDone then [] else GLYPH)\<rparr>"
  by (auto simp: pending_def assemble_def glyph_not_LOADING endsWith_glyph butlast_glyph)

lemma pending_assemble:
  "pending t m \<Longrightarrow> pending (t @ chunk) (assemble chunk False m)"
  by (simp add: assemble_pending) (simp add: pending_def)

lemma pending_placeholder: "pending [] placeholder"
  by (simp add: pending_def placeholder_def)

lemma handleStop_idem: "isStopped s \<Longrightarrow> handleStop s = s"
  by (cases s) (simp add: handleStop_def)

section \<open>Facts about deleting\<close>

lemma sortIds_head:
  assumes "sortIds ks = k # rest"
  shows "k \<in> set ks \<and> (\<forall>k' \<in> set ks. stamp k' \<le> stamp k)"
proof -
  let ?f = "\<lambda>k. - int (stamp k)"
  have set: "set (k # rest) = set ks"
    using assms by (metis sortIds_def set_sort)
  have "sorted (map ?f (k # rest))"
    using assms by (metis sortIds_def sorted_sort_key)
  then have "\<forall>x \<in> set (k # rest). ?f k \<le> ?f x" by auto
  then have "\<forall>x \<in> set ks. stamp x \<le> stamp k" using set by auto
  moreover have "k \<in> set ks" using set by auto
  ultimately show ?thesis by simp
qed

lemma sortIds_Nil: "sortIds ks = [] \<longleftrightarrow> ks = []"
  by (metis sortIds_def length_sort length_0_conv)

section \<open>Facts about trimming\<close>

lemma trim_Nil_iff: "trim t = [] \<longleftrightarrow> (\<forall>c \<in> set t. isWhiteSpace c)"
proof -
  have "trim t = [] \<longleftrightarrow> (\<forall>c \<in> set (dropWhile isWhiteSpace t). isWhiteSpace c)"
    by (simp add: trim_def dropWhile_eq_Nil_conv)
  also have "\<dots> \<longleftrightarrow> (\<forall>c \<in> set t. isWhiteSpace c)"
  proof
    assume "\<forall>c \<in> set (dropWhile isWhiteSpace t). isWhiteSpace c"
    then have "dropWhile isWhiteSpace t = []"
      by (metis dropWhile_eq_Nil_conv dropWhile_idem)
    then show "\<forall>c \<in> set t. isWhiteSpace c" by (simp add: dropWhile_eq_Nil_conv)
  next
    assume "\<forall>c \<in> set t. isWhiteSpace c"
    then show "\<forall>c \<in> set (dropWhile isWhiteSpace t). isWhiteSpace c"
      using set_dropWhileD by metis
  qed
  finally show ?thesis .
qed

lemma trim_last: "trim t \<noteq> [] \<Longrightarrow> \<not> isWhiteSpace (last (trim t))"
proof -
  assume "trim t \<noteq> []"
  then have ne: "dropWhile isWhiteSpace (rev (dropWhile isWhiteSpace t)) \<noteq> []"
    by (simp add: trim_def)
  then have "\<not> isWhiteSpace (hd (dropWhile isWhiteSpace (rev (dropWhile isWhiteSpace t))))"
    by (rule hd_dropWhile)
  then show ?thesis using ne by (simp add: trim_def last_rev)
qed

lemma trim_decompose: "\<exists>a z. t = a @ trim t @ z"
proof -
  let ?b = "dropWhile isWhiteSpace t"
  have "trim t @ rev (takeWhile isWhiteSpace (rev ?b)) =
        rev (takeWhile isWhiteSpace (rev ?b) @ dropWhile isWhiteSpace (rev ?b))"
    by (simp only: trim_def rev_append)
  also have "\<dots> = ?b"
    by (simp only: takeWhile_dropWhile_id rev_rev_ident)
  finally have "?b = trim t @ rev (takeWhile isWhiteSpace (rev ?b))"
    by simp
  moreover have "t = takeWhile isWhiteSpace t @ ?b" by simp
  ultimately have "t = takeWhile isWhiteSpace t @ trim t @ rev (takeWhile isWhiteSpace (rev ?b))"
    by simp
  then show ?thesis by blast
qed

lemma generate_prefix: "length (js ''/generate '') = 10" "last (js ''/generate '') = 0x20"
  by (simp_all add: js_def)

lemma prompt_not_empty:
  assumes "startsWith (trim messageContent) (js ''/generate '')"
  shows "truthy (trim (substring messageContent (length (js ''/generate ''))))"
proof -
  let ?core = "trim messageContent"
  have take: "take 10 ?core = js ''/generate ''"
    using assms by (simp add: startsWith_def generate_prefix)
  then have ne: "?core \<noteq> []" by (auto simp: js_def)
  have long: "10 < length ?core"
  proof (rule ccontr)
    assume "\<not> 10 < length ?core"
    then have "?core = js ''/generate ''" using take by simp
    then have "isWhiteSpace (last ?core)" by (simp add: generate_prefix isWhiteSpace_def)
    then show False using trim_last [OF ne] by simp
  qed
  obtain a z where split: "messageContent = a @ ?core @ z"
    using trim_decompose by blast
  have "drop 10 messageContent = drop 10 a @ drop (10 - length a) ?core @ drop (10 - length a - length ?core) z"
    by (subst split) simp
  moreover have "drop (10 - length a) ?core \<noteq> []" using long by simp
  moreover have "last (drop (10 - length a) ?core) = last ?core"
    using long by (simp add: last_drop)
  ultimately have "last ?core \<in> set (drop 10 messageContent)"
    by (metis Un_iff last_in_set set_append)
  then have "trim (drop 10 messageContent) \<noteq> []"
    using trim_last [OF ne] trim_Nil_iff by blast
  then show ?thesis by (simp add: truthy_def substring_def generate_prefix)
qed

section \<open>Facts about other handlers\<close>

lemma isStopped_otherStep: "isStopped (otherStep step s) = flagAfter step (isStopped s)"
  by (cases step)
     (simp_all add: handleStop_def deleteChat_def startNewChat_def switchChat_def
        handleRemoveImage_def Let_def split: option.splits list.splits)

lemma isStopped_otherSteps:
  "isStopped (otherSteps steps s) = fold flagAfter steps (isStopped s)"
  unfolding otherSteps_def
  by (induction steps arbitrary: s) (simp_all add: isStopped_otherStep)

lemma otherSteps_Nil [simp]: "otherSteps [] s = s"
  by (simp add: otherSteps_def)

lemma otherSteps_Cons [simp]: "otherSteps (step # steps) s = otherSteps steps (otherStep step s)"
  by (simp add: otherSteps_def)

lemma otherSteps_append: "otherSteps (xs @ ys) s = otherSteps ys (otherSteps xs s)"
  by (simp add: otherSteps_def)

lemma messagesOf_deleteChat:
  assumes "messagesOf cid s = Some ms" and "k \<noteq> cid"
  shows "messagesOf cid (deleteChat now k s) = Some ms"
proof -
  let ?rest = "AList.delete k (conversations s)"
  have kept: "map_of ?rest cid = map_of (conversations s) cid"
    using assms(2) by (simp add: delete_conv')
  then have "map_of ?rest cid \<noteq> None" using assms(1) by (auto simp: messagesOf_def)
  then have "?rest \<noteq> []" by auto
  then have "sortIds (map fst ?rest) \<noteq> []" by (simp add: sortIds_Nil)
  then show ?thesis
    using assms(1) kept
    by (auto simp: deleteChat_def Let_def messagesOf_def split: list.splits)
qed

lemma messagesOf_pushMessages_other:
  "k \<noteq> cid \<Longrightarrow>
   messagesOf cid (s\<lparr>conversations := pushMessages k new (conversations s)\<rparr>) = messagesOf cid s"
  by (auto simp: messagesOf_def pushMessages_def update_conv' split: option.splits)

lemma messagesOf_popPush_other:
  "k \<noteq> cid \<Longrightarrow>
   messagesOf cid (s\<lparr>conversations := popPush k m (conversations s)\<rparr>) = messagesOf cid s"
  by (auto simp: messagesOf_def popPush_def update_conv' split: option.splits)

lemma messagesOf_updateLastMessage_other:
  "k \<noteq> cid \<Longrightarrow>
   messagesOf cid (s\<lparr>conversations := updateLastMessage (Some k) chunk isDone (conversations s)\<rparr>)
     = messagesOf cid s"
  by (auto simp: messagesOf_def updateLastMessage_def update_conv' Let_def
      split: option.splits list.splits)

lemma messagesOf_quiet:
  assumes "messagesOf cid s = Some ms" and "quiet cid step"
  shows "messagesOf cid (otherStep step s) = Some ms"
proof (cases step)
  case (DeleteChat now k)
  then show ?thesis using assms by (simp add: messagesOf_deleteChat)
next
  case (TurnBegins k userMessage)
  then have "k \<noteq> cid" using assms(2) by simp
  then show ?thesis
    using assms(1) TurnBegins
    by (auto simp: messagesOf_def pushMessages_def update_conv' split: option.splits)
qed (use assms in \<open>simp_all add: messagesOf_pushMessages_other messagesOf_popPush_other
       messagesOf_updateLastMessage_other messagesOf_setTitle\<close>,
     simp_all add: messagesOf_def handleStop_def startNewChat_def switchChat_def
       handleRemoveImage_def update_conv' Let_def split: option.splits)

lemma messagesOf_quiet_steps:
  "messagesOf cid s = Some ms \<Longrightarrow> \<forall>step \<in> set steps. quiet cid step \<Longrightarrow>
   messagesOf cid (otherSteps steps s) = Some ms"
  by (induction steps arbitrary: s) (simp_all add: messagesOf_quiet)

section \<open>Facts about the chunk loop\<close>

lemma fst_consumeStream:
  "fst (consumeStream cid closing events s) = streamFailure (isStopped s) events"
  by (induction cid closing events s rule: consumeStream.induct)
     (simp_all add: isStopped_otherStep)

lemma isStopped_consumeStream:
  "isStopped (snd (consumeStream cid closing events s)) = flagAtCheck closing (isStopped s) events"
  by (induction cid closing events s rule: consumeStream.induct)
     (simp_all add: isStopped_otherStep isStopped_otherSteps)

lemma imageUrl_assemble: "imageUrl (assemble chunk isDone m) = imageUrl m"
  by (simp add: assemble_def Let_def)

lemma consumeStream_invariant:
  assumes "messagesOf cid s = Some (earlier @ [m])" and "pending t m"
    and "\<forall>step \<in> set (stepsInLoop closing (isStopped s) events). quiet cid step"
  shows "\<exists>m'. messagesOf cid (snd (consumeStream cid closing events s)) = Some (earlier @ [m'])
           \<and> pending (t @ appliedText (isStopped s) events) m'
           \<and> imageUrl m' = imageUrl m"
  using assms
proof (induction cid closing events s arbitrary: t m rule: consumeStream.induct)
  case (1 cid closing s)
  then show ?case by simp
next
  case (2 cid closing e events s)
  then show ?case by simp
next
  case (3 cid closing step events s)
  have calm: "quiet cid step" using "3.prems"(3) by simp
  have kept: "messagesOf cid (otherStep step s) = Some (earlier @ [m])"
    using "3.prems"(1) calm by (rule messagesOf_quiet)
  have rest: "\<forall>x \<in> set (stepsInLoop closing (isStopped (otherStep step s)) events). quiet cid x"
    using "3.prems"(3) by (simp add: isStopped_otherStep)
  from "3.IH" [OF kept "3.prems"(2) rest] show ?case
    by (simp add: isStopped_otherStep)
next
  case (4 cid closing textChunk events s)
  show ?case
  proof (cases "isStopped s")
    case True
    then have "\<forall>step \<in> set closing. quiet cid step" using "4.prems"(3) by simp
    with "4.prems"(1) have "messagesOf cid (otherSteps closing s) = Some (earlier @ [m])"
      by (rule messagesOf_quiet_steps)
    then show ?thesis using True "4.prems"(2) by auto
  next
    case False
    let ?s' = "s\<lparr>conversations := updateLastMessage (Some cid) textChunk False (conversations s)\<rparr>"
    have role: "role m = MODEL" using "4.prems"(2) by (simp add: pending_def)
    have m: "messagesOf cid ?s' = Some (earlier @ [assemble textChunk False m])"
      using "4.prems"(1) role by (rule messagesOf_updateLastMessage)
    have p: "pending (t @ textChunk) (assemble textChunk False m)"
      using "4.prems"(2) by (rule pending_assemble)
    have rest: "\<forall>x \<in> set (stepsInLoop closing (isStopped ?s') events). quiet cid x"
      using "4.prems"(3) False by simp
    from "4.IH" [OF False m p rest] show ?thesis
      using False by (simp add: imageUrl_assemble)
  qed
qed

section \<open>Facts about the notions of a stream\<close>




section \<open>Facts about a turn\<close>

lemma submitMessage_started:
  assumes "truthy (trim mc) \<or> imageFile seen \<noteq> None"
    and "\<not> isLoading seen"
    and "currentChatId seen = Some cid"
    and "map_of (conversations seen) cid = Some conv"
  shows "submitMessage env mc seen s =
         Resolved
           (finishTurn cid (imageFile seen) mc
              (tryBlock env cid (imageFile seen) (messages conv) (userMessageOf mc seen)
                 (fst (titleStep env cid (messages conv = []) (userMessageOf mc seen)
                         (pushedState mc cid seen s)))))
           (snd (titleStep env cid (messages conv = []) (userMessageOf mc seen)
                   (pushedState mc cid seen s))
            @ snd (snd (tryBlock env cid (imageFile seen) (messages conv) (userMessageOf mc seen)
                 (fst (titleStep env cid (messages conv = []) (userMessageOf mc seen)
                         (pushedState mc cid seen s))))))"
  using assms
  by (auto simp: submitMessage_def pushedState_def Let_def split: prod.splits)

lemma messagesOf_pushedState:
  "messagesOf cid s = Some ms \<Longrightarrow>
   messagesOf cid (pushedState mc cid seen s) =
   Some ((ms @ [userMessageOf mc seen]) @ [placeholder])"
  by (auto simp: pushedState_def messagesOf_def pushMessages_def update_conv')

lemma isStopped_pushedState: "\<not> isStopped (pushedState mc cid seen s)"
  by (simp add: pushedState_def)

lemma titleStep_messagesOf:
  "messagesOf cid' (fst (titleStep env cid isFirst um s)) = messagesOf cid' s"
  by (auto simp: titleStep_def messagesOf_def setTitle_def update_conv' split: prod.splits option.splits)

lemma titleStep_isStopped:
  "isStopped (fst (titleStep env cid isFirst um s)) = isStopped s"
  by (auto simp: titleStep_def split: prod.splits)

lemma generated_not_spinner: "js ''> '' @ prompt \<noteq> LOADING_INDICATOR_CONTENT"
proof
  assume "js ''> '' @ prompt = LOADING_INDICATOR_CONTENT"
  then have "hd (js ''> '' @ prompt) = hd LOADING_INDICATOR_CONTENT" by simp
  then show False by (simp add: js_def LOADING_INDICATOR_CONTENT_def)
qed

lemma imageGeneration_attempt:
  assumes "messagesOf cid s = Some (earlier @ [p])"
    and "\<forall>step \<in> set (meanwhile env). quiet cid step"
  shows "\<exists>lm. messagesOf cid (fst (snd (imageGeneration env cid mc s))) = Some (earlier @ [lm])
            \<and> (fst (imageGeneration env cid mc s) = None \<longrightarrow> \<not> showsSpinner lm)"
proof -
  have "messagesOf cid (otherSteps (meanwhile env) s) = Some (earlier @ [p])"
    using assms by (rule messagesOf_quiet_steps)
  then show ?thesis
    using assms(1)
    by (auto simp: imageGeneration_def Let_def messagesOf_popPush showsSpinner_def
        generated_not_spinner split: outcome.splits)
qed

lemma imageGeneration_fails:
  assumes "startsWith (trim mc) (js ''/generate '')"
  shows "fst (imageGeneration env cid mc s) = remoteFailure env ImageGeneration"
  using prompt_not_empty [OF assms]
  by (simp add: imageGeneration_def remoteFailure_def Let_def split: outcome.splits)

lemma understandingMessage_spinner:
  "showsSpinner (understandingMessage r) \<longleftrightarrow> fst (readResponse r) = LOADING_INDICATOR_CONTENT"
  by (auto simp: understandingMessage_def showsSpinner_def truthy_def LOADING_INDICATOR_CONTENT_def
      js_def split: prod.splits if_splits option.splits)

lemma imageUnderstanding_attempt:
  assumes "messagesOf cid s = Some (earlier @ [p])"
    and "\<forall>step \<in> set (meanwhile env). quiet cid step"
    and "API_KEY env"
  shows "\<exists>lm. messagesOf cid (fst (snd (imageUnderstanding env cid f mc s))) = Some (earlier @ [lm])
            \<and> (fst (imageUnderstanding env cid f mc s) = None \<longrightarrow>
                 (showsSpinner lm \<longleftrightarrow> echoesSentinel env (ImageUnderstanding f)))"
proof -
  have "messagesOf cid (otherSteps (meanwhile env) s) = Some (earlier @ [p])"
    using assms(1,2) by (rule messagesOf_quiet_steps)
  then show ?thesis
    using assms(3)
    by (auto simp: imageUnderstanding_def Let_def messagesOf_popPush echoesSentinel_def
        understandingMessage_spinner split: outcome.splits)
qed

lemma imageUnderstanding_fails:
  "fst (imageUnderstanding env cid f mc s) = remoteFailure env (ImageUnderstanding f)"
  by (auto simp: remoteFailure_def imageUnderstanding_def Let_def split: outcome.splits)

lemma marker_not_spinner: "t @ STOP_MARKER \<noteq> LOADING_INDICATOR_CONTENT"
proof
  assume "t @ STOP_MARKER = LOADING_INDICATOR_CONTENT"
  then have "last (t @ STOP_MARKER) = last LOADING_INDICATOR_CONTENT" by simp
  then show False by (simp add: LOADING_last STOP_MARKER_def)
qed

lemma textStreaming_fails:
  "\<not> isStopped s \<Longrightarrow>
   fst (textStreaming env cid seenMessages um s) = remoteFailure env PlainText"
proof -
  assume running: "\<not> isStopped s"
  show ?thesis
  proof (cases "sendMessageStream env")
    case (Throws e)
    then show ?thesis by (simp add: textStreaming_def remoteFailure_def Let_def)
  next
    case (Returns events)
    let ?s' = "otherSteps (meanwhile env) s"
    have flag: "isStopped ?s' = flagAtStream env"
      using running by (simp add: isStopped_otherSteps flagAtStream_def)
    have "fst (consumeStream cid (whileClosing env) events ?s') =
          streamFailure (flagAtStream env) events"
      by (simp add: fst_consumeStream flag)
    then show ?thesis
      using Returns
      by (auto simp: textStreaming_def remoteFailure_def Let_def split: prod.splits option.splits)
  qed
qed

text \<open>The content of the last message when the streaming path has ended without exception.\<close>

lemma textStreaming_attempt:
  assumes "messagesOf cid s = Some (earlier @ [p])" and "pending [] p"
    and "\<not> isStopped s"
    and "\<forall>step \<in> set (meanwhile env). quiet cid step"
    and "\<forall>events. sendMessageStream env = Returns events \<longrightarrow>
           (\<forall>step \<in> set (stepsInLoop (whileClosing env) (flagAtStream env) events).
              quiet cid step)"
  shows "\<exists>lm. messagesOf cid (fst (snd (textStreaming env cid seenMessages um s)))
                = Some (earlier @ [lm])
            \<and> (fst (textStreaming env cid seenMessages um s) = None \<longrightarrow>
                 (\<exists>events. sendMessageStream env = Returns events
                    \<and> lm = p\<lparr>content :=
                              appliedText (flagAtStream env) events
                              @ (if flagAtCheck (whileClosing env) (flagAtStream env) events
                                 then STOP_MARKER else [])\<rparr>))"
proof -
  let ?s' = "otherSteps (meanwhile env) s"
  have before: "messagesOf cid ?s' = Some (earlier @ [p])"
    using assms(1,4) by (rule messagesOf_quiet_steps)
  have flag: "isStopped ?s' = flagAtStream env"
    using assms(3) by (simp add: isStopped_otherSteps flagAtStream_def)
  show ?thesis
  proof (cases "sendMessageStream env")
    case (Throws e)
    then show ?thesis using before by (simp add: textStreaming_def Let_def)
  next
    case (Returns events)
    obtain err s'' where run: "consumeStream cid (whileClosing env) events ?s' = (err, s'')"
      by (cases "consumeStream cid (whileClosing env) events ?s'")
    have calm: "\<forall>step \<in> set (stepsInLoop (whileClosing env) (isStopped ?s') events).
                  quiet cid step"
      using assms(5) Returns flag by simp
    from consumeStream_invariant [OF before assms(2) calm] run
    obtain m' where m': "messagesOf cid s'' = Some (earlier @ [m'])"
      and p': "pending (appliedText (flagAtStream env) events) m'"
      and img: "imageUrl m' = imageUrl p"
      by (auto simp: flag)
    have stopped: "isStopped s'' = flagAtCheck (whileClosing env) (flagAtStream env) events"
      using isStopped_consumeStream [of cid "whileClosing env" events ?s'] run flag by simp
    show ?thesis
    proof (cases err)
      case (Some e)
      then show ?thesis
        using Returns run m' by (simp add: textStreaming_def Let_def)
    next
      case None
      let ?chunk = "if isStopped s'' then STOP_MARKER else []"
      let ?final = "s''\<lparr>conversations := updateLastMessage (Some cid) ?chunk True (conversations s'')\<rparr>"
      have role: "role m' = MODEL" using p' by (simp add: pending_def)
      have rolep: "role p = MODEL" using assms(2) by (simp add: pending_def)
      have final: "messagesOf cid ?final = Some (earlier @ [assemble ?chunk True m'])"
        using m' role by (rule messagesOf_updateLastMessage)
      have "assemble ?chunk True m' =
            m'\<lparr>content := appliedText (flagAtStream env) events @ ?chunk\<rparr>"
        using assemble_pending [OF p', of ?chunk True] by simp
      also have "\<dots> = p\<lparr>content := appliedText (flagAtStream env) events @ ?chunk\<rparr>"
        using role rolep img by (cases m', cases p) simp
      finally have eq: "assemble ?chunk True m' =
                        p\<lparr>content := appliedText (flagAtStream env) events @ ?chunk\<rparr>" .
      have att: "textStreaming env cid seenMessages um s =
                 (None, ?final, [SendMessageStreamCall (chatHistory seenMessages) (content um)])"
        using Returns run None by (simp add: textStreaming_def Let_def)
      show ?thesis
        unfolding att using final eq stopped Returns by simp
    qed
  qed
qed

lemma echoesSentinel_no_failure: "echoesSentinel env p \<Longrightarrow> remoteFailure env p = None"
  by (auto simp: echoesSentinel_def remoteFailure_def split: path.splits outcome.splits)

lemma hd_js: "hd (js (c # cs) @ t) = of_char c"
  by (simp add: js_def)

lemma friendly_not_spinner: "friendlyMessage f mc e \<noteq> LOADING_INDICATOR_CONTENT"
proof
  assume "friendlyMessage f mc e = LOADING_INDICATOR_CONTENT"
  then have "hd (friendlyMessage f mc e) = hd (LOADING_INDICATOR_CONTENT @ [])" by simp
  then show False
    unfolding LOADING_INDICATOR_CONTENT_def friendlyMessage_def
    by (simp only: hd_js split: if_splits) simp_all
qed

lemma errorMessage_not_spinner: "\<not> showsSpinner (errorMessage f mc e)"
  by (simp add: showsSpinner_def errorMessage_def friendly_not_spinner)

lemma selectPath_content:
  "selectPath mc f = ImageGeneration \<Longrightarrow> startsWith (trim mc) (js ''/generate '')"
  by (auto simp: selectPath_def split: if_splits option.splits)

lemma tryBlock_fails:
  assumes "\<not> isStopped s" and "API_KEY env"
  shows "fst (tryBlock env cid f seenMessages um s) = remoteFailure env (selectPath (content um) f)"
proof (cases "selectPath (content um) f")
  case ImageGeneration
  then show ?thesis
    using assms(2) by (simp add: tryBlock_def imageGeneration_fails selectPath_content)
next
  case (ImageUnderstanding img)
  then show ?thesis
    using assms(2) by (simp add: tryBlock_def imageUnderstanding_fails)
next
  case PlainText
  then show ?thesis
    using assms by (simp add: tryBlock_def textStreaming_fails)
qed

lemma tryBlock_attempt:
  assumes "messagesOf cid s = Some (earlier @ [p])" and "pending [] p"
    and "\<not> isStopped s"
    and "API_KEY env"
    and "\<forall>step \<in> set (stepsInTurn env (selectPath (content um) f)). quiet cid step"
  shows "\<exists>lm. messagesOf cid (fst (snd (tryBlock env cid f seenMessages um s)))
                = Some (earlier @ [lm])
            \<and> (fst (tryBlock env cid f seenMessages um s) = None \<longrightarrow>
                 (showsSpinner lm \<longleftrightarrow> echoesSentinel env (selectPath (content um) f)))"
proof (cases "selectPath (content um) f")
  case ImageGeneration
  have "\<forall>step \<in> set (meanwhile env). quiet cid step"
    using assms(4,5) ImageGeneration by (simp add: stepsInTurn_def)
  from imageGeneration_attempt [OF assms(1) this, of "content um"]
  show ?thesis
    using assms(4) ImageGeneration by (auto simp: tryBlock_def echoesSentinel_def)
next
  case (ImageUnderstanding img)
  have "\<forall>step \<in> set (meanwhile env). quiet cid step"
    using assms(4,5) ImageUnderstanding by (simp add: stepsInTurn_def)
  from imageUnderstanding_attempt [OF assms(1) this assms(4), of img "content um"]
  show ?thesis
    using assms(4) ImageUnderstanding by (auto simp: tryBlock_def)
next
  case PlainText
  have calm: "\<forall>step \<in> set (meanwhile env). quiet cid step"
    using assms(4,5) PlainText by (auto simp: stepsInTurn_def split: outcome.splits)
  have loop: "\<forall>events. sendMessageStream env = Returns events \<longrightarrow>
           (\<forall>step \<in> set (stepsInLoop (whileClosing env) (flagAtStream env) events).
              quiet cid step)"
    using assms(4,5) PlainText by (auto simp: stepsInTurn_def)
  let ?att = "textStreaming env cid seenMessages um s"
  from textStreaming_attempt [OF assms(1,2,3) calm loop, of seenMessages um]
  obtain lm where both: "messagesOf cid (fst (snd ?att)) = Some (earlier @ [lm])
      \<and> (fst ?att = None \<longrightarrow>
           (\<exists>events. sendMessageStream env = Returns events
              \<and> lm = p\<lparr>content :=
                        appliedText (flagAtStream env) events
                        @ (if flagAtCheck (whileClosing env) (flagAtStream env) events
                           then STOP_MARKER else [])\<rparr>))" ..
  have "fst ?att = None \<longrightarrow> (showsSpinner lm \<longleftrightarrow> echoesSentinel env PlainText)"
  proof
    assume none: "fst ?att = None"
    with both obtain events where ev: "sendMessageStream env = Returns events"
      and lm: "lm = p\<lparr>content :=
                        appliedText (flagAtStream env) events
                        @ (if flagAtCheck (whileClosing env) (flagAtStream env) events
                           then STOP_MARKER else [])\<rparr>"
      by blast
    have "streamFailure (flagAtStream env) events = None"
      using none ev textStreaming_fails [OF assms(3), of env cid seenMessages um]
      by (simp add: remoteFailure_def)
    then show "showsSpinner lm \<longleftrightarrow> echoesSentinel env PlainText"
      using ev lm assms(4)
      by (simp add: showsSpinner_def echoesSentinel_def marker_not_spinner)
  qed
  with both show ?thesis
    using assms(4) PlainText by (auto simp: tryBlock_def)
qed

lemma tryBlock_no_key:
  "\<not> API_KEY env \<Longrightarrow>
   tryBlock env cid f seenMessages um s =
   (Some (js ''API_KEY environment variable not set.''), s, [])"
  by (simp add: tryBlock_def)

lemma finishTurn_isLoading: "\<not> isLoading (finishTurn cid f mc att)"
  by (auto simp: finishTurn_def split: prod.splits option.splits)

lemma finishTurn_completed:
  "fst att = None \<Longrightarrow> messagesOf k (finishTurn cid f mc att) = messagesOf k (fst (snd att))"
  by (auto simp: finishTurn_def messagesOf_def split: prod.splits option.splits)

lemma finishTurn_caught:
  assumes "fst att = Some e" and "messagesOf cid (fst (snd att)) = Some (earlier @ [lm])"
  shows "messagesOf cid (finishTurn cid f mc att) = Some (earlier @ [errorMessage f mc e])"
proof -
  obtain s calls where att: "att = (Some e, s, calls)"
    using assms(1) by (cases att) auto
  have "messagesOf cid s = Some (earlier @ [lm])" using assms(2) att by simp
  from messagesOf_popPush [OF this, of "errorMessage f mc e"]
  show ?thesis by (simp add: att finishTurn_def messagesOf_def)
qed

lemma content_userMessageOf [simp]: "content (userMessageOf mc s) = mc"
  by (simp add: userMessageOf_def)


lemma titleStep_calls:
  "c \<in> set (snd (titleStep env cid isFirst um s)) \<Longrightarrow> \<exists>fm. c = TitleCall fm"
  by (auto simp: titleStep_def getChatTitle_def Let_def split: if_splits prod.splits outcome.splits)

lemma imageGeneration_calls:
  "c \<in> set (snd (snd (imageGeneration env cid mc s))) \<Longrightarrow> \<exists>prompt. c = GenerateImagesCall prompt"
  by (auto simp: imageGeneration_def Let_def split: if_splits outcome.splits)

lemma imageUnderstanding_calls:
  "c \<in> set (snd (snd (imageUnderstanding env cid img mc s))) \<Longrightarrow>
   \<exists>mimeType d t. c = GenerateContentCall mimeType d t"
  by (auto simp: imageUnderstanding_def Let_def split: if_splits outcome.splits)

lemma textStreaming_calls:
  "snd (snd (textStreaming env cid seenMessages um s)) =
   [SendMessageStreamCall (chatHistory seenMessages) (content um)]"
  by (auto simp: textStreaming_def Let_def split: outcome.splits option.splits prod.splits)



lemma addMessage_staging:
  "imageFile (addMessageToCurrentChat m s) = imageFile s
   \<and> imagePreview (addMessageToCurrentChat m s) = imagePreview s"
  by (simp add: addMessageToCurrentChat_def split: option.splits)

lemma addMessage_messagesOf:
  "currentChatId s = Some cid \<Longrightarrow> messagesOf cid s = Some ms \<Longrightarrow>
   messagesOf cid (addMessageToCurrentChat m s) = Some (ms @ [m])"
  by (simp add: addMessageToCurrentChat_def messagesOf_pushMessages)

section \<open>Facts about titles\<close>

lemma getChatTitle_default:
  "\<not> API_KEY env \<or> (\<exists>e. titleResponse env = Throws e) \<Longrightarrow>
   fst (getChatTitle env firstMessage) = js ''New Chat''"
  by (auto simp: getChatTitle_def)

lemma title_after_messages:
  "(c::Conversation)\<lparr>messages := ms, title := t\<rparr> = c\<lparr>title := t, messages := ms\<rparr>"
  by (cases c) simp

lemma map_of_untitle:
  "map_of (untitle xs) k = map_option (\<lambda>c. c\<lparr>title := []\<rparr>) (map_of xs k)"
  by (induction xs) (auto simp: untitle_def)

lemma untitle_update:
  "untitle (AList.update k v xs) = AList.update k (v\<lparr>title := []\<rparr>) (untitle xs)"
  by (induction xs) (auto simp: untitle_def)

lemma untitle_delete: "untitle (AList.delete k xs) = AList.delete k (untitle xs)"
  by (induction xs) (auto simp: untitle_def)

lemma map_fst_untitle: "map fst (untitle xs) = map fst xs"
  by (induction xs) (auto simp: untitle_def)

lemma untitle_idem: "untitle (untitle xs) = untitle xs"
  by (induction xs) (auto simp: untitle_def)

lemma untitle_pushMessages: "untitle (pushMessages k ms xs) = pushMessages k ms (untitle xs)"
  by (auto simp: pushMessages_def map_of_untitle untitle_update title_after_messages
      split: option.splits)

lemma untitle_popPush: "untitle (popPush k m xs) = popPush k m (untitle xs)"
  by (auto simp: popPush_def map_of_untitle untitle_update title_after_messages
      split: option.splits)

lemma untitle_updateLastMessage:
  "untitle (updateLastMessage cur chunk isDone xs) = updateLastMessage cur chunk isDone (untitle xs)"
  by (auto simp: updateLastMessage_def map_of_untitle untitle_update title_after_messages Let_def
      split: option.splits list.splits)

lemma untitle_setTitle: "untitle (setTitle k t xs) = untitle xs"
  by (auto simp: setTitle_def untitle_update map_of_untitle update_triv split: option.splits)

text \<open>What a turn and the other handlers do to the rest of the state does not depend on titles.\<close>

lemma untitled_fields:
  "conversations (untitled s) = untitle (conversations s)"
  "currentChatId (untitled s) = currentChatId s"
  "isStopped (untitled s) = isStopped s"
  "isLoading (untitled s) = isLoading s"
  by (simp_all add: untitled_def)

lemma untitled_eq_fields:
  assumes "untitled s = untitled t"
  shows "isStopped s = isStopped t" and "isLoading s = isLoading t"
    and "currentChatId s = currentChatId t"
    and "untitle (conversations s) = untitle (conversations t)"
proof -
  show "isStopped s = isStopped t"
    using arg_cong [OF assms, of isStopped] by (simp add: untitled_def)
  show "isLoading s = isLoading t"
    using arg_cong [OF assms, of isLoading] by (simp add: untitled_def)
  show "currentChatId s = currentChatId t"
    using arg_cong [OF assms, of currentChatId] by (simp add: untitled_def)
  show "untitle (conversations s) = untitle (conversations t)"
    using arg_cong [OF assms, of conversations] by (simp add: untitled_def)
qed

lemma untitled_idem: "untitled (untitled s) = untitled s"
  by (simp add: untitled_def untitle_idem)

lemma messagesOf_untitled: "messagesOf k (untitled s) = messagesOf k s"
  by (simp add: messagesOf_def untitled_def map_of_untitle option.map_comp comp_def)

lemma untitled_conversations:
  "untitle (f (conversations s)) = untitle (f (conversations t)) \<Longrightarrow> untitled s = untitled t \<Longrightarrow>
   untitled (s\<lparr>conversations := f (conversations s)\<rparr>) =
   untitled (t\<lparr>conversations := f (conversations t)\<rparr>)"
  by (cases s, cases t) (simp add: untitled_def)

lemma untitled_deleteChat: "untitled (deleteChat now k s) = untitled (deleteChat now k (untitled s))"
proof -
  let ?rest = "AList.delete k (conversations s)"
  have keys: "sortIds (map fst (AList.delete k (untitle (conversations s)))) = sortIds (map fst ?rest)"
    by (simp add: untitle_delete [symmetric] map_fst_untitle)
  show ?thesis
  proof (cases "currentChatId s = Some k")
    case False
    then show ?thesis
      by (cases s) (simp add: deleteChat_def untitled_def Let_def untitle_delete untitle_idem)
  next
    case True
    show ?thesis
    proof (cases "sortIds (map fst ?rest)")
      case Nil
      then show ?thesis
        using True keys
        by (cases s)
           (simp add: deleteChat_def untitled_def Let_def untitle_delete untitle_idem untitle_update)
    next
      case (Cons k' ks)
      then show ?thesis
        using True keys
        by (cases s) (simp add: deleteChat_def untitled_def Let_def untitle_delete untitle_idem)
    qed
  qed
qed

lemma untitled_otherStep: "untitled (otherStep step s) = untitled (otherStep step (untitled s))"
proof (cases step)
  case (DeleteChat now k)
  then show ?thesis using untitled_deleteChat by simp
next
  case (SwitchChat k)
  then show ?thesis
    by (cases s) (auto simp: switchChat_def untitled_def map_of_untitle untitle_idem
        split: option.splits)
qed (cases s; simp add: untitled_def handleStop_def startNewChat_def handleRemoveImage_def
       Let_def untitle_idem untitle_update untitle_pushMessages untitle_popPush
       untitle_updateLastMessage untitle_setTitle)+

lemma otherStep_same:
  assumes "untitled s = untitled t"
  shows "untitled (otherStep step s) = untitled (otherStep step t)"
proof -
  have "untitled (otherStep step s) = untitled (otherStep step (untitled s))"
    by (rule untitled_otherStep)
  also have "\<dots> = untitled (otherStep step (untitled t))"
    by (simp only: assms)
  also have "\<dots> = untitled (otherStep step t)"
    by (rule untitled_otherStep [symmetric])
  finally show ?thesis .
qed

lemma otherSteps_same:
  "untitled s = untitled t \<Longrightarrow> untitled (otherSteps steps s) = untitled (otherSteps steps t)"
proof (induction steps arbitrary: s t)
  case Nil
  then show ?case by simp
next
  case (Cons step steps)
  have "untitled (otherStep step s) = untitled (otherStep step t)"
    using Cons.prems by (rule otherStep_same)
  then have "untitled (otherSteps steps (otherStep step s)) =
             untitled (otherSteps steps (otherStep step t))"
    by (rule Cons.IH)
  then show ?case by simp
qed

lemma update_same:
  assumes "untitled s = untitled t"
    and "\<And>xs. untitle (f xs) = f (untitle xs)"
  shows "untitled (s\<lparr>conversations := f (conversations s)\<rparr>) =
         untitled (t\<lparr>conversations := f (conversations t)\<rparr>)"
proof -
  have "untitle (f (conversations s)) = untitle (f (conversations t))"
    using untitled_eq_fields(4) [OF assms(1)] by (simp add: assms(2))
  then show ?thesis using assms(1) by (rule untitled_conversations)
qed

lemma consumeStream_same:
  "untitled s = untitled t \<Longrightarrow>
   untitled (snd (consumeStream cid closing events s)) =
   untitled (snd (consumeStream cid closing events t))"
proof (induction events arbitrary: s t)
  case Nil
  then show ?case by simp
next
  case (Cons event events)
  have flag: "isStopped s = isStopped t" using Cons.prems by (rule untitled_eq_fields)
  show ?case
  proof (cases event)
    case (Chunk textChunk)
    let ?s' = "s\<lparr>conversations := updateLastMessage (Some cid) textChunk False (conversations s)\<rparr>"
    let ?t' = "t\<lparr>conversations := updateLastMessage (Some cid) textChunk False (conversations t)\<rparr>"
    have "untitled ?s' = untitled ?t'"
      using Cons.prems by (rule update_same) (rule untitle_updateLastMessage)
    then have go: "untitled (snd (consumeStream cid closing events ?s')) =
                   untitled (snd (consumeStream cid closing events ?t'))"
      by (rule Cons.IH)
    have halt: "untitled (otherSteps closing s) = untitled (otherSteps closing t)"
      using Cons.prems by (rule otherSteps_same)
    show ?thesis
    proof (cases "isStopped t")
      case True
      then show ?thesis using Chunk flag halt by simp
    next
      case False
      then show ?thesis using Chunk flag go by simp
    qed
  next
    case (StreamThrows e)
    then show ?thesis using Cons.prems by simp
  next
    case (Meanwhile step)
    have "untitled (otherStep step s) = untitled (otherStep step t)"
      using Cons.prems by (rule otherStep_same)
    then have "untitled (snd (consumeStream cid closing events (otherStep step s))) =
               untitled (snd (consumeStream cid closing events (otherStep step t)))"
      by (rule Cons.IH)
    then show ?thesis using Meanwhile by simp
  qed
qed

lemma imageGeneration_same:
  assumes "untitled s = untitled t"
  shows "fst (imageGeneration env cid mc s) = fst (imageGeneration env cid mc t)
       \<and> untitled (fst (snd (imageGeneration env cid mc s))) =
           untitled (fst (snd (imageGeneration env cid mc t)))"
proof -
  let ?s' = "otherSteps (meanwhile env) s" and ?t' = "otherSteps (meanwhile env) t"
  have same: "untitled ?s' = untitled ?t'" using assms by (rule otherSteps_same)
  have "untitled (?s'\<lparr>conversations := popPush cid m (conversations ?s')\<rparr>) =
        untitled (?t'\<lparr>conversations := popPush cid m (conversations ?t')\<rparr>)" for m
    using same by (rule update_same) (rule untitle_popPush)
  then show ?thesis
    using assms same by (simp add: imageGeneration_def Let_def split: outcome.splits)
qed

lemma imageUnderstanding_same:
  assumes "untitled s = untitled t"
  shows "fst (imageUnderstanding env cid img mc s) = fst (imageUnderstanding env cid img mc t)
       \<and> untitled (fst (snd (imageUnderstanding env cid img mc s))) =
           untitled (fst (snd (imageUnderstanding env cid img mc t)))"
proof -
  let ?s' = "otherSteps (meanwhile env) s" and ?t' = "otherSteps (meanwhile env) t"
  have same: "untitled ?s' = untitled ?t'" using assms by (rule otherSteps_same)
  have "untitled (?s'\<lparr>conversations := popPush cid m (conversations ?s')\<rparr>) =
        untitled (?t'\<lparr>conversations := popPush cid m (conversations ?t')\<rparr>)" for m
    using same by (rule update_same) (rule untitle_popPush)
  then show ?thesis
    using same by (simp add: imageUnderstanding_def Let_def split: outcome.splits)
qed

lemma textStreaming_same:
  assumes "untitled s = untitled t"
  shows "fst (textStreaming env cid seenMessages um s) = fst (textStreaming env cid seenMessages um t)
       \<and> untitled (fst (snd (textStreaming env cid seenMessages um s))) =
           untitled (fst (snd (textStreaming env cid seenMessages um t)))"
proof (cases "sendMessageStream env")
  case (Throws e)
  then show ?thesis
    using otherSteps_same [OF assms, of "meanwhile env"] by (simp add: textStreaming_def Let_def)
next
  case (Returns events)
  let ?s' = "otherSteps (meanwhile env) s" and ?t' = "otherSteps (meanwhile env) t"
  have same: "untitled ?s' = untitled ?t'" using assms by (rule otherSteps_same)
  obtain err s'' where runs: "consumeStream cid (whileClosing env) events ?s' = (err, s'')"
    by (cases "consumeStream cid (whileClosing env) events ?s'")
  obtain err' t'' where runt: "consumeStream cid (whileClosing env) events ?t' = (err', t'')"
    by (cases "consumeStream cid (whileClosing env) events ?t'")
  have "isStopped ?s' = isStopped ?t'" using same by (rule untitled_eq_fields)
  then have err: "err = err'"
    using fst_consumeStream [of cid "whileClosing env" events ?s']
      fst_consumeStream [of cid "whileClosing env" events ?t'] runs runt by simp
  have after: "untitled s'' = untitled t''"
    using consumeStream_same [OF same, of cid "whileClosing env" events] runs runt by simp
  have flag: "isStopped s'' = isStopped t''" using after by (rule untitled_eq_fields)
  have "untitled (s''\<lparr>conversations := updateLastMessage (Some cid) c True (conversations s'')\<rparr>) =
        untitled (t''\<lparr>conversations := updateLastMessage (Some cid) c True (conversations t'')\<rparr>)"
    for c
    using after by (rule update_same) (rule untitle_updateLastMessage)
  then show ?thesis
    using Returns runs runt err after flag
    by (cases err') (simp_all add: textStreaming_def Let_def)
qed

lemma tryBlock_same:
  assumes "untitled s = untitled t"
  shows "fst (tryBlock env cid f seenMessages um s) = fst (tryBlock env cid f seenMessages um t)
       \<and> untitled (fst (snd (tryBlock env cid f seenMessages um s))) =
           untitled (fst (snd (tryBlock env cid f seenMessages um t)))"
  using assms imageGeneration_same [OF assms] imageUnderstanding_same [OF assms]
    textStreaming_same [OF assms]
  by (simp add: tryBlock_def split: path.splits)

lemma finishTurn_same:
  assumes "fst att = fst att'" and "untitled (fst (snd att)) = untitled (fst (snd att'))"
  shows "untitled (finishTurn cid f mc att) = untitled (finishTurn cid f mc att')"
proof -
  obtain err s calls where att: "att = (err, s, calls)" by (cases att)
  obtain err' t calls' where att': "att' = (err', t, calls')" by (cases att')
  have same: "untitled s = untitled t" and err: "err = err'"
    using assms att att' by simp_all
  have loading: "untitled (s\<lparr>isLoading := False\<rparr>) = untitled (t\<lparr>isLoading := False\<rparr>)"
    if "untitled s = untitled t" for s t
    using that by (cases s, cases t) (simp add: untitled_def)
  have "untitled (s\<lparr>conversations := popPush cid m (conversations s)\<rparr>) =
        untitled (t\<lparr>conversations := popPush cid m (conversations t)\<rparr>)" for m
    using same by (rule update_same) (rule untitle_popPush)
  from loading [OF this] loading [OF same] show ?thesis
    by (cases err') (simp_all add: att att' err finishTurn_def)
qed

lemma titleStep_untitled: "untitled (fst (titleStep env cid isFirst um s)) = untitled s"
  by (cases s) (simp add: titleStep_def split_beta untitled_def untitle_setTitle)

lemma tryBlock_titleResponse:
  "tryBlock (env\<lparr>titleResponse := r\<rparr>) cid f seenMessages um s = tryBlock env cid f seenMessages um s"
  by (simp add: tryBlock_def imageGeneration_def imageUnderstanding_def textStreaming_def
      Let_def split: path.splits outcome.splits option.splits)

lemma turn_any_title:
  "untitled (stateOf (submitMessage (env\<lparr>titleResponse := r\<rparr>) mc seen s)) =
   untitled (stateOf (submitMessage env mc seen s))"
proof (cases "(truthy (trim mc) \<or> imageFile seen \<noteq> None) \<and> \<not> isLoading seen")
  case False
  then show ?thesis by (auto simp: submitMessage_def)
next
  case True
  show ?thesis
  proof (cases "currentChatId seen")
    case None
    then show ?thesis by (simp add: submitMessage_def)
  next
    case (Some cid)
    show ?thesis
    proof (cases "map_of (conversations seen) cid")
      case None
      then show ?thesis using Some by (simp add: submitMessage_def Let_def)
    next
      case (Some conv)
      let ?um = "userMessageOf mc seen"
      let ?ps = "pushedState mc cid seen s"
      let ?a = "fst (titleStep (env\<lparr>titleResponse := r\<rparr>) cid (messages conv = []) ?um ?ps)"
      let ?b = "fst (titleStep env cid (messages conv = []) ?um ?ps)"
      have h: "truthy (trim mc) \<or> imageFile seen \<noteq> None" "\<not> isLoading seen"
        using True by simp_all
      have "untitled ?a = untitled ?b" by (simp only: titleStep_untitled)
      from tryBlock_same [OF this, of env cid "imageFile seen" "messages conv" ?um]
      have "untitled (finishTurn cid (imageFile seen) mc
                (tryBlock env cid (imageFile seen) (messages conv) ?um ?a)) =
            untitled (finishTurn cid (imageFile seen) mc
                (tryBlock env cid (imageFile seen) (messages conv) ?um ?b))"
        by (intro finishTurn_same) simp_all
      then show ?thesis
        using submitMessage_started [OF h \<open>currentChatId seen = Some cid\<close> Some, of env s]
          submitMessage_started [OF h \<open>currentChatId seen = Some cid\<close> Some,
            of "env\<lparr>titleResponse := r\<rparr>" s]
        by (simp add: tryBlock_titleResponse)
    qed
  qed
qed

lemma turn_messages_any_title:
  "messagesOf k (stateOf (submitMessage (env\<lparr>titleResponse := r\<rparr>) mc seen s)) =
   messagesOf k (stateOf (submitMessage env mc seen s))"
  using arg_cong [OF turn_any_title [of r env mc seen s], of "messagesOf k"]
  by (simp add: messagesOf_untitled)

lemma turn_isLoading_any_title:
  "isLoading (stateOf (submitMessage (env\<lparr>titleResponse := r\<rparr>) mc seen s)) =
   isLoading (stateOf (submitMessage env mc seen s))"
  using arg_cong [OF turn_any_title [of r env mc seen s], of isLoading]
  by (simp add: untitled_fields)

lemma titles_pushMessages:
  "map_option title (map_of (pushMessages cid ms prev) k) = map_option title (map_of prev k)"
  by (auto simp: pushMessages_def update_conv' split: option.splits)

lemma titles_popPush:
  "map_option title (map_of (popPush cid m prev) k) = map_option title (map_of prev k)"
  by (auto simp: popPush_def update_conv' split: option.splits)

lemma titles_updateLastMessage:
  "map_option title (map_of (updateLastMessage cur chunk isDone prev) k) =
   map_option title (map_of prev k)"
  by (auto simp: updateLastMessage_def update_conv' Let_def split: option.splits list.splits)

lemma titleOf_keepsTitles:
  "keepsTitles step \<Longrightarrow> titleOf k (otherStep step s) = titleOf k s"
  by (cases step)
     (simp_all add: titleOf_def handleStop_def switchChat_def handleRemoveImage_def
        titles_pushMessages titles_popPush titles_updateLastMessage split: option.splits)

lemma titleOf_otherSteps:
  "\<forall>step \<in> set steps. keepsTitles step \<Longrightarrow> titleOf k (otherSteps steps s) = titleOf k s"
  by (induction steps arbitrary: s) (simp_all add: titleOf_keepsTitles)

lemma titleOf_consumeStream:
  "\<forall>step \<in> set (stepsInLoop closing (isStopped s) events). keepsTitles step \<Longrightarrow>
   titleOf k (snd (consumeStream cid closing events s)) = titleOf k s"
proof (induction cid closing events s rule: consumeStream.induct)
  case (1 cid closing s)
  then show ?case by simp
next
  case (2 cid closing e events s)
  then show ?case by simp
next
  case (3 cid closing step events s)
  then show ?case by (simp add: isStopped_otherStep titleOf_keepsTitles)
next
  case (4 cid closing textChunk events s)
  show ?case
  proof (cases "isStopped s")
    case True
    then show ?thesis using "4.prems" by (simp add: titleOf_otherSteps)
  next
    case False
    let ?s' = "s\<lparr>conversations := updateLastMessage (Some cid) textChunk False (conversations s)\<rparr>"
    have "titleOf k (snd (consumeStream cid closing events ?s')) = titleOf k ?s'"
      using "4.IH" [OF False] "4.prems" False by simp
    then show ?thesis
      using False by (simp add: titleOf_def titles_updateLastMessage)
  qed
qed

lemma titleOf_imageGeneration:
  "\<forall>step \<in> set (meanwhile env). keepsTitles step \<Longrightarrow>
   titleOf k (fst (snd (imageGeneration env cid mc s))) = titleOf k s"
  using titleOf_otherSteps [of "meanwhile env" k s]
  by (auto simp: imageGeneration_def Let_def titleOf_def titles_popPush split: outcome.splits)

lemma titleOf_imageUnderstanding:
  "\<forall>step \<in> set (meanwhile env). keepsTitles step \<Longrightarrow>
   titleOf k (fst (snd (imageUnderstanding env cid img mc s))) = titleOf k s"
  using titleOf_otherSteps [of "meanwhile env" k s]
  by (auto simp: imageUnderstanding_def Let_def titleOf_def titles_popPush split: outcome.splits)

lemma titleOf_textStreaming:
  assumes "\<not> isStopped s"
    and "\<forall>step \<in> set (stepsInTurn env PlainText). keepsTitles step"
    and "API_KEY env"
  shows "titleOf k (fst (snd (textStreaming env cid seenMessages um s))) = titleOf k s"
proof -
  let ?s' = "otherSteps (meanwhile env) s"
  have calm: "\<forall>step \<in> set (meanwhile env). keepsTitles step"
    using assms(2,3) by (auto simp: stepsInTurn_def split: outcome.splits)
  then have first: "titleOf k ?s' = titleOf k s" by (rule titleOf_otherSteps)
  have flag: "isStopped ?s' = flagAtStream env"
    using assms(1) by (simp add: isStopped_otherSteps flagAtStream_def)
  show ?thesis
  proof (cases "sendMessageStream env")
    case (Throws e)
    then show ?thesis using first by (simp add: textStreaming_def Let_def)
  next
    case (Returns events)
    obtain err s'' where run: "consumeStream cid (whileClosing env) events ?s' = (err, s'')"
      by (cases "consumeStream cid (whileClosing env) events ?s'")
    have "\<forall>step \<in> set (stepsInLoop (whileClosing env) (isStopped ?s') events). keepsTitles step"
      using assms(2,3) Returns flag by (simp add: stepsInTurn_def)
    then have "titleOf k (snd (consumeStream cid (whileClosing env) events ?s')) = titleOf k ?s'"
      by (rule titleOf_consumeStream)
    then have "titleOf k s'' = titleOf k s" using run first by simp
    then show ?thesis
      using Returns run
      by (cases err) (simp_all add: textStreaming_def Let_def titleOf_def titles_updateLastMessage)
  qed
qed

lemma titleOf_tryBlock:
  assumes "\<not> isStopped s"
    and "\<forall>step \<in> set (stepsInTurn env (selectPath (content um) f)). keepsTitles step"
  shows "titleOf k (fst (snd (tryBlock env cid f seenMessages um s))) = titleOf k s"
proof (cases "API_KEY env")
  case False
  then show ?thesis by (simp add: tryBlock_def)
next
  case True
  show ?thesis
  proof (cases "selectPath (content um) f")
    case ImageGeneration
    then show ?thesis
      using True assms(2) by (simp add: tryBlock_def stepsInTurn_def titleOf_imageGeneration)
  next
    case (ImageUnderstanding img)
    then show ?thesis
      using True assms(2) by (simp add: tryBlock_def stepsInTurn_def titleOf_imageUnderstanding)
  next
    case PlainText
    then show ?thesis
      using True assms by (simp add: tryBlock_def titleOf_textStreaming)
  qed
qed

lemma titleOf_finishTurn:
  "titleOf k (finishTurn cid f mc att) = titleOf k (fst (snd att))"
  by (auto simp: finishTurn_def titleOf_def titles_popPush split: prod.splits option.splits)

lemma titleOf_pushedState: "titleOf k (pushedState mc cid seen s) = titleOf k s"
  by (simp add: pushedState_def titleOf_def titles_pushMessages)

lemma later_turn_keeps_titles:
  assumes "currentChatId seen = Some cid"
    and "map_of (conversations seen) cid = Some conv"
    and "messages conv \<noteq> []"
    and "\<forall>step \<in> set (stepsInTurn env (selectPath mc (imageFile seen))). keepsTitles step"
  shows "titleOf k (stateOf (submitMessage env mc seen s)) = titleOf k s"
proof (cases "(truthy (trim mc) \<or> imageFile seen \<noteq> None) \<and> \<not> isLoading seen")
  case False
  then show ?thesis by (auto simp: submitMessage_def)
next
  case True
  let ?um = "userMessageOf mc seen"
  let ?ps = "pushedState mc cid seen s"
  have h: "truthy (trim mc) \<or> imageFile seen \<noteq> None" "\<not> isLoading seen"
    using True by simp_all
  have same: "fst (titleStep env cid (messages conv = []) ?um ?ps) = ?ps"
    using assms(3) by (simp add: titleStep_def)
  have "stateOf (submitMessage env mc seen s) =
        finishTurn cid (imageFile seen) mc
          (tryBlock env cid (imageFile seen) (messages conv) ?um ?ps)"
    using submitMessage_started [OF h assms(1,2), of env s] same by simp
  moreover have "titleOf k (fst (snd (tryBlock env cid (imageFile seen) (messages conv) ?um ?ps)))
                 = titleOf k ?ps"
    using assms(4) by (intro titleOf_tryBlock) (simp_all add: isStopped_pushedState)
  ultimately show ?thesis
    by (simp add: titleOf_finishTurn titleOf_pushedState)
qed

lemma titleStep_request:
  "TitleCall fm \<in> set (snd (titleStep env cid isFirst um s)) \<Longrightarrow> isFirst"
  by (auto simp: titleStep_def split: if_splits)

lemma tryBlock_no_title_request:
  "TitleCall fm \<notin> set (snd (snd (tryBlock env cid f seenMessages um s)))"
  by (auto simp: tryBlock_def textStreaming_calls split: if_splits path.splits
      dest: imageGeneration_calls imageUnderstanding_calls)

lemma title_request_first_turn:
  assumes "TitleCall fm \<in> set (callsOf (submitMessage env mc seen s))"
  shows "\<exists>cid conv. currentChatId seen = Some cid \<and> map_of (conversations seen) cid = Some conv
           \<and> messages conv = []"
  using assms
  by (auto simp: submitMessage_def Let_def split_beta tryBlock_no_title_request
      split: if_splits option.splits dest: titleStep_request)

section \<open>Facts about persistence\<close>

lemma length_deleteImageUrl [simp]: "length (deleteImageUrl r h) = length h"
  by (simp add: deleteImageUrl_def)

lemma nth_deleteImageUrl:
  "i < length h \<Longrightarrow>
   deleteImageUrl r h ! i = (if i = r then (h ! i)\<lparr>imageUrl := None\<rparr> else h ! i)"
  by (simp add: deleteImageUrl_def)

lemma length_fold_deleteImageUrl [simp]: "length (fold deleteImageUrl rs h) = length h"
  by (induction rs arbitrary: h) simp_all

lemma nth_fold_deleteImageUrl:
  "i < length h \<Longrightarrow>
   fold deleteImageUrl rs h ! i = (if i \<in> set rs then (h ! i)\<lparr>imageUrl := None\<rparr> else h ! i)"
  by (induction rs arbitrary: h) (auto simp: nth_deleteImageUrl)

lemma length_deleteImageUrls [simp]: "length (deleteImageUrls store h) = length h"
  unfolding deleteImageUrls_def by (induction store arbitrary: h) (auto simp: split_beta)

lemma nth_deleteImageUrls:
  "i < length h \<Longrightarrow>
   deleteImageUrls store h ! i =
     (if i \<in> refsOf store then (h ! i)\<lparr>imageUrl := None\<rparr> else h ! i)"
  unfolding deleteImageUrls_def refsOf_def
  by (induction store arbitrary: h) (auto simp: split_beta nth_fold_deleteImageUrl)

lemma conversation_eta:
  "\<lparr>id_conv = id_conv c, title = title c, messages = messages c\<rparr> = (c::Conversation)"
  by (cases c) simp

lemma nth_fresh: "map (\<lambda>r. (h @ ms @ ext) ! r) [length h ..< length h + length ms] = ms"
  by (rule nth_equalityI) (simp_all add: nth_append)

lemma parse_fresh:
  "parse h convs = (h', objects) \<Longrightarrow>
   (\<exists>ext. h' = h @ ext) \<and> refsOf objects \<subseteq> {length h ..< length h'}
   \<and> stringify h' objects = convs"
proof (induction convs arbitrary: h h' objects)
  case Nil
  then show ?case by (simp add: refsOf_def stringify_def)
next
  case (Cons kc rest)
  obtain k c where kc: "kc = (k, c)" by (cases kc)
  obtain h2 os where rec: "parse (h @ messages c) rest = (h2, os)"
    by (cases "parse (h @ messages c) rest")
  from Cons.IH [OF rec]
  obtain ext where ext: "h2 = (h @ messages c) @ ext"
    and refs: "refsOf os \<subseteq> {length (h @ messages c) ..< length h2}"
    and str: "stringify h2 os = rest"
    by blast
  have h': "h' = h2"
    and objects: "objects = (k, \<lparr>obj_id = id_conv c, obj_title = title c,
        obj_messages = [length h ..< length h + length (messages c)]\<rparr>) # os"
    using Cons.prems kc rec by (simp_all add: Let_def)
  have "map (\<lambda>r. h2 ! r) [length h ..< length h + length (messages c)] = messages c"
    using nth_fresh [of h "messages c" ext] ext by simp
  then have "stringify h' objects = kc # rest"
    using str by (simp add: h' objects kc stringify_def conversationAt_def conversation_eta)
  moreover have "refsOf objects \<subseteq> {length h ..< length h'}"
    using refs ext by (auto simp: h' objects refsOf_def)
  moreover have "\<exists>ext. h' = h @ ext" using ext h' by simp
  ultimately show ?case by blast
qed

lemma stringify_deleteImageUrls:
  assumes "refsOf copy \<subseteq> {n ..< length h}"
  shows "stringify (deleteImageUrls copy h) copy = withoutImages (stringify h copy)"
proof -
  have "\<And>k c r. (k, c) \<in> set copy \<Longrightarrow> r \<in> set (obj_messages c) \<Longrightarrow>
        r < length h \<and> r \<in> refsOf copy"
    using assms by (fastforce simp: refsOf_def)
  then show ?thesis
    by (auto simp: stringify_def withoutImages_def conversationAt_def nth_deleteImageUrls)
qed

lemma stringify_old:
  assumes "validStore h store" and "length h \<le> length h'"
    and "\<And>i. i < length h \<Longrightarrow> h' ! i = h ! i"
  shows "stringify h' store = stringify h store"
  using assms by (auto simp: stringify_def validStore_def conversationAt_def)

lemma conversationsToSave_correct:
  assumes "validStore h store"
  shows "snd (conversationsToSave h store) = withoutImages (stringify h store)
       \<and> stringify (fst (conversationsToSave h store)) store = stringify h store
       \<and> take (length h) (fst (conversationsToSave h store)) = h"
proof -
  obtain h1 copy where p: "parse h (stringify h store) = (h1, copy)"
    by (cases "parse h (stringify h store)")
  from parse_fresh [OF p]
  obtain ext where ext: "h1 = h @ ext"
    and refs: "refsOf copy \<subseteq> {length h ..< length h1}"
    and str: "stringify h1 copy = stringify h store"
    by blast
  let ?h2 = "deleteImageUrls copy h1"
  have res: "conversationsToSave h store = (?h2, stringify ?h2 copy)"
    using p by (simp add: conversationsToSave_def Let_def)
  have saved: "stringify ?h2 copy = withoutImages (stringify h store)"
    using stringify_deleteImageUrls [OF refs] str by simp
  have old: "?h2 ! i = h ! i" if "i < length h" for i
  proof -
    have "i < length h1" using that ext by simp
    moreover have "i \<notin> refsOf copy" using that refs by auto
    ultimately have "?h2 ! i = h1 ! i" by (simp add: nth_deleteImageUrls)
    then show ?thesis using that ext by (simp add: nth_append)
  qed
  have len: "length h \<le> length ?h2" using ext by simp
  have "stringify ?h2 store = stringify h store"
    using assms len old by (rule stringify_old)
  moreover have "take (length h) ?h2 = h"
    using len old by (intro nth_equalityI) simp_all
  ultimately show ?thesis using res saved by simp
qed

section \<open>Claims\<close>

text \<open>
  C1. Starting from the loading placeholder as last message of the current
  conversation, any sequence of chunks applied with \<open>isDone = false\<close> and then the
  finalising call with \<open>isDone = true\<close> leaves the last message with exactly the
  concatenation of the chunks as content (the finalising call of a completed stream
  passes the empty string). So no cursor glyph is left over and none is lost or
  doubled, also when chunks contain or end with the glyph character. The earlier
  messages, the role and the image of the message are untouched.
\<close>

theorem stream_assembles_concat:
  assumes "map_of prev cid = Some current"
    and "messages current = earlier @ [m]"
    and "role m = MODEL"
    and "content m = LOADING_INDICATOR_CONTENT"
  shows "map_of (finalize cid lastChunk (applyChunks cid chunks prev)) cid =
           Some (current\<lparr>messages := earlier @ [m\<lparr>content := concat chunks @ lastChunk\<rparr>]\<rparr>)
         \<and> map_of (finalize cid [] (applyChunks cid chunks prev)) cid =
           Some (current\<lparr>messages := earlier @ [m\<lparr>content := concat chunks\<rparr>]\<rparr>)"
proof -
  have general: "map_of (finalize cid final (applyChunks cid chunks prev)) cid =
      Some (current\<lparr>messages := earlier @ [m\<lparr>content := concat chunks @ final\<rparr>]\<rparr>)" for final
  proof (cases "chunks = []")
    case True
    then show ?thesis
      using assms
      by (simp add: finalize_def applyChunks_def map_of_updateLastMessage assemble_sentinel)
  next
    case False
    let ?m' = "m\<lparr>content := concat chunks @ GLYPH\<rparr>"
    let ?current' = "current\<lparr>messages := earlier @ [?m']\<rparr>"
    have mid: "map_of (applyChunks cid chunks prev) cid = Some ?current'"
      using assms False by (rule applyChunks_sentinel)
    have "map_of (finalize cid final (applyChunks cid chunks prev)) cid =
          Some (?current'\<lparr>messages := earlier @ [assemble final True ?m']\<rparr>)"
      unfolding finalize_def by (rule map_of_updateLastMessage [OF mid]) (simp_all add: assms)
    then show ?thesis by (simp add: assemble_streaming)
  qed
  from general [of lastChunk] general [of "[]"] show ?thesis by simp
qed

theorem stream_assembles_concat_witness:
  "map_of
     (finalize (ChatId 1) []
        (applyChunks (ChatId 1) [js ''Hi'' @ GLYPH, GLYPH, js ''there'']
           [chat 1 [said USER (js ''hello''), placeholder]]))
     (ChatId 1) =
   Some (snd (chat 1 [said USER (js ''hello''),
                      said MODEL (js ''Hi'' @ GLYPH @ GLYPH @ js ''there'')]))"
proof -
  let ?prev = "[chat 1 [said USER (js ''hello''), placeholder]]"
  have h1: "map_of ?prev (ChatId 1) = Some (snd (chat 1 [said USER (js ''hello''), placeholder]))"
    by (simp add: chat_def)
  have h2: "messages (snd (chat 1 [said USER (js ''hello''), placeholder])) =
            [said USER (js ''hello'')] @ [placeholder]"
    by (simp add: chat_def)
  have h3: "role placeholder = MODEL" by (simp add: placeholder_def)
  have h4: "content placeholder = LOADING_INDICATOR_CONTENT" by (simp add: placeholder_def)
  from stream_assembles_concat [OF h1 h2 h3 h4, of "[]" "[js ''Hi'' @ GLYPH, GLYPH, js ''there'']"]
  show ?thesis by (simp add: chat_def said_def placeholder_def)
qed

text \<open>
  C2 (as the code has it). A turn that passes its guard, on a conversation its closure
  holds, always resolves, with \<open>isLoading\<close> false. When the conversation is in the
  store and no other handler that runs during the turn touches its messages, the
  conversation then holds the messages it had, the user message and one more message
  in place of the placeholder. When credentials are missing or the remote service
  raises an exception on the selected path (for the stream: before the loop is left),
  that message is the error-role message with the text made from the exception. The
  message shows the spinner exactly when the remote service delivered the reserved
  sentinel string itself as the text of its answer.
\<close>

theorem turn_replaces_placeholder:
  assumes "truthy (trim mc) \<or> imageFile seen \<noteq> None"
    and "\<not> isLoading seen"
    and "currentChatId seen = Some cid"
    and "map_of (conversations seen) cid = Some conv"
  shows "\<exists>s' calls.
           submitMessage env mc seen s = Resolved s' calls
           \<and> \<not> isLoading s'
           \<and> (\<forall>ms. messagesOf cid s = Some ms
                    \<and> (\<forall>step \<in> set (stepsInTurn env (selectPath mc (imageFile seen))).
                          quiet cid step) \<longrightarrow>
                 (\<exists>lm. messagesOf cid s' = Some (ms @ [userMessageOf mc seen, lm])
                    \<and> (\<not> API_KEY env \<longrightarrow>
                         lm = errorMessage (imageFile seen) mc
                                (js ''API_KEY environment variable not set.''))
                    \<and> (\<forall>e. API_KEY env
                             \<and> remoteFailure env (selectPath mc (imageFile seen)) = Some e \<longrightarrow>
                           lm = errorMessage (imageFile seen) mc e)
                    \<and> (showsSpinner lm \<longleftrightarrow>
                         echoesSentinel env (selectPath mc (imageFile seen)))))"
proof -
  let ?um = "userMessageOf mc seen"
  let ?f = "imageFile seen"
  let ?p = "selectPath mc ?f"
  let ?s5 = "fst (titleStep env cid (messages conv = []) ?um (pushedState mc cid seen s))"
  let ?att = "tryBlock env cid ?f (messages conv) ?um ?s5"
  let ?s' = "finishTurn cid ?f mc ?att"
  have run: "submitMessage env mc seen s =
             Resolved ?s' (snd (titleStep env cid (messages conv = []) ?um (pushedState mc cid seen s))
                           @ snd (snd ?att))"
    using assms by (rule submitMessage_started)
  have idle: "\<not> isLoading ?s'" by (rule finishTurn_isLoading)
  have running: "\<not> isStopped ?s5"
    by (simp only: titleStep_isStopped isStopped_pushedState not_False_eq_True)
  have "\<exists>lm. messagesOf cid ?s' = Some (ms @ [?um, lm])
          \<and> (\<not> API_KEY env \<longrightarrow>
               lm = errorMessage ?f mc (js ''API_KEY environment variable not set.''))
          \<and> (\<forall>e. API_KEY env \<and> remoteFailure env ?p = Some e \<longrightarrow> lm = errorMessage ?f mc e)
          \<and> (showsSpinner lm \<longleftrightarrow> echoesSentinel env ?p)"
    if live: "messagesOf cid s = Some ms"
      and calm: "\<forall>step \<in> set (stepsInTurn env ?p). quiet cid step" for ms
  proof -
    let ?earlier = "ms @ [?um]"
    have before: "messagesOf cid ?s5 = Some (?earlier @ [placeholder])"
      using live by (simp only: titleStep_messagesOf messagesOf_pushedState)
    show ?thesis
    proof (cases "API_KEY env")
      case False
      then have att: "?att = (Some (js ''API_KEY environment variable not set.''), ?s5, [])"
        by (rule tryBlock_no_key)
      have "messagesOf cid ?s' =
            Some (?earlier @ [errorMessage ?f mc (js ''API_KEY environment variable not set.'')])"
        by (rule finishTurn_caught [where lm = placeholder]) (simp_all add: att before)
      moreover have "\<not> echoesSentinel env ?p" using False by (simp add: echoesSentinel_def)
      ultimately show ?thesis
        using False by (simp add: errorMessage_not_spinner)
    next
      case True
      have calm': "\<forall>step \<in> set (stepsInTurn env (selectPath (content ?um) ?f)). quiet cid step"
        using calm by simp
      from tryBlock_attempt [OF before pending_placeholder running True calm', of "messages conv"]
      obtain lm0 where both: "messagesOf cid (fst (snd ?att)) = Some (?earlier @ [lm0])
          \<and> (fst ?att = None \<longrightarrow>
               (showsSpinner lm0 \<longleftrightarrow> echoesSentinel env (selectPath (content ?um) ?f)))" ..
      from both have lm0: "messagesOf cid (fst (snd ?att)) = Some (?earlier @ [lm0])" ..
      from both have ok: "fst ?att = None \<longrightarrow> (showsSpinner lm0 \<longleftrightarrow> echoesSentinel env ?p)"
        by simp
      have fails: "fst ?att = remoteFailure env ?p"
        using tryBlock_fails [OF running True, of cid ?f "messages conv" ?um] by simp
      show ?thesis
      proof (cases "remoteFailure env ?p")
        case None
        then have none: "fst ?att = None" using fails by simp
        have "messagesOf cid ?s' = Some (?earlier @ [lm0])"
          using finishTurn_completed [OF none] lm0 by simp
        then show ?thesis using True None ok none by simp
      next
        case (Some e)
        then have some: "fst ?att = Some e" using fails by simp
        have "messagesOf cid ?s' = Some (?earlier @ [errorMessage ?f mc e])"
          using some lm0 by (rule finishTurn_caught)
        moreover have "\<not> echoesSentinel env ?p"
          using Some echoesSentinel_no_failure [of env ?p] by auto
        ultimately show ?thesis
          using True Some by (simp add: errorMessage_not_spinner)
      qed
    qed
  qed
  then show ?thesis using run idle by blast
qed

theorem turn_replaces_placeholder_witness:
  "(\<exists>s' calls.
      submitMessage
        (streaming [Chunk (js ''Hi''), Meanwhile (InputSet (js ''next'')), StreamThrows (js ''reset'')])
        (js ''hello'') (idle [chat 1 []] (Some (ChatId 1))) (idle [chat 1 []] (Some (ChatId 1)))
        = Resolved s' calls
      \<and> \<not> isLoading s'
      \<and> messagesOf (ChatId 1) s' =
          Some [said USER (js ''hello''), said ERROR (js ''An error occurred: reset'')])
   \<and> (\<exists>s' calls.
      submitMessage ((streaming [])\<lparr>API_KEY := False\<rparr>) (js ''hello'')
        (idle [chat 1 []] (Some (ChatId 1))) (idle [chat 1 []] (Some (ChatId 1)))
        = Resolved s' calls
      \<and> \<not> isLoading s'
      \<and> messagesOf (ChatId 1) s' =
          Some [said USER (js ''hello''),
                said ERROR (js ''An error occurred: API_KEY environment variable not set.'')])"
proof -
  let ?env = "streaming [Chunk (js ''Hi''), Meanwhile (InputSet (js ''next'')),
                         StreamThrows (js ''reset'')]"
  let ?off = "(streaming [])\<lparr>API_KEY := False\<rparr>"
  let ?s = "idle [chat 1 []] (Some (ChatId 1))"
  have h1: "truthy (trim (js ''hello'')) \<or> imageFile ?s \<noteq> None"
    by (simp add: truthy_def trim_def js_def isWhiteSpace_def)
  have h2: "\<not> isLoading ?s" by (simp add: idle_def)
  have h3: "currentChatId ?s = Some (ChatId 1)" by (simp add: idle_def)
  have h4: "map_of (conversations ?s) (ChatId 1) = Some (snd (chat 1 []))"
    by (simp add: idle_def chat_def)
  have live: "messagesOf (ChatId 1) ?s = Some []"
    by (simp add: messagesOf_def idle_def chat_def)
  have path: "selectPath (js ''hello'') (imageFile ?s) = PlainText"
    by (simp add: selectPath_def idle_def startsWith_def trim_def js_def isWhiteSpace_def)
  have calm: "\<forall>step \<in> set (stepsInTurn ?env (selectPath (js ''hello'') (imageFile ?s))).
                quiet (ChatId 1) step"
    unfolding path by (simp add: stepsInTurn_def streaming_def flagAtStream_def)
  have calm': "\<forall>step \<in> set (stepsInTurn ?off (selectPath (js ''hello'') (imageFile ?s))).
                quiet (ChatId 1) step"
    by (simp add: stepsInTurn_def)
  have key: "API_KEY ?env" by (simp add: streaming_def)
  have nokey: "\<not> API_KEY ?off" by simp
  have fails: "remoteFailure ?env PlainText = Some (js ''reset'')"
    by (simp add: remoteFailure_def streaming_def flagAtStream_def)
  from turn_replaces_placeholder [OF h1 h2 h3 h4, of ?env ?s]
  obtain s' calls where run: "submitMessage ?env (js ''hello'') ?s ?s = Resolved s' calls"
    and idle: "\<not> isLoading s'"
    and rest: "\<forall>ms. messagesOf (ChatId 1) ?s = Some ms
                 \<and> (\<forall>step \<in> set (stepsInTurn ?env (selectPath (js ''hello'') (imageFile ?s))).
                       quiet (ChatId 1) step) \<longrightarrow>
                 (\<exists>lm. messagesOf (ChatId 1) s' = Some (ms @ [userMessageOf (js ''hello'') ?s, lm])
                    \<and> (\<not> API_KEY ?env \<longrightarrow>
                         lm = errorMessage (imageFile ?s) (js ''hello'')
                                (js ''API_KEY environment variable not set.''))
                    \<and> (\<forall>e. API_KEY ?env
                             \<and> remoteFailure ?env (selectPath (js ''hello'') (imageFile ?s)) = Some e
                           \<longrightarrow> lm = errorMessage (imageFile ?s) (js ''hello'') e)
                    \<and> (showsSpinner lm \<longleftrightarrow>
                         echoesSentinel ?env (selectPath (js ''hello'') (imageFile ?s))))"
    by blast
  from rest live calm
  obtain lm where msgs: "messagesOf (ChatId 1) s' = Some ([] @ [userMessageOf (js ''hello'') ?s, lm])"
    and caught: "\<forall>e. API_KEY ?env
                     \<and> remoteFailure ?env (selectPath (js ''hello'') (imageFile ?s)) = Some e
                   \<longrightarrow> lm = errorMessage (imageFile ?s) (js ''hello'') e"
    by blast
  have "lm = errorMessage (imageFile ?s) (js ''hello'') (js ''reset'')"
    using caught key path fails by simp
  then have "messagesOf (ChatId 1) s' =
             Some [said USER (js ''hello''), said ERROR (js ''An error occurred: reset'')]"
    using msgs
    by (simp add: userMessageOf_def said_def idle_def js_def errorMessage_def
        friendlyMessage_def startsWith_def trim_def isWhiteSpace_def)
  then have first: "\<exists>s' calls.
      submitMessage ?env (js ''hello'') ?s ?s = Resolved s' calls \<and> \<not> isLoading s'
      \<and> messagesOf (ChatId 1) s' =
          Some [said USER (js ''hello''), said ERROR (js ''An error occurred: reset'')]"
    using run idle by blast
  from turn_replaces_placeholder [OF h1 h2 h3 h4, of ?off ?s]
  obtain t' calls' where run': "submitMessage ?off (js ''hello'') ?s ?s = Resolved t' calls'"
    and idle': "\<not> isLoading t'"
    and rest': "\<forall>ms. messagesOf (ChatId 1) ?s = Some ms
                 \<and> (\<forall>step \<in> set (stepsInTurn ?off (selectPath (js ''hello'') (imageFile ?s))).
                       quiet (ChatId 1) step) \<longrightarrow>
                 (\<exists>lm. messagesOf (ChatId 1) t' = Some (ms @ [userMessageOf (js ''hello'') ?s, lm])
                    \<and> (\<not> API_KEY ?off \<longrightarrow>
                         lm = errorMessage (imageFile ?s) (js ''hello'')
                                (js ''API_KEY environment variable not set.''))
                    \<and> (\<forall>e. API_KEY ?off
                             \<and> remoteFailure ?off (selectPath (js ''hello'') (imageFile ?s)) = Some e
                           \<longrightarrow> lm = errorMessage (imageFile ?s) (js ''hello'') e)
                    \<and> (showsSpinner lm \<longleftrightarrow>
                         echoesSentinel ?off (selectPath (js ''hello'') (imageFile ?s))))"
    by blast
  from rest' live calm'
  obtain lm' where msgs': "messagesOf (ChatId 1) t' =
                             Some ([] @ [userMessageOf (js ''hello'') ?s, lm'])"
    and unset: "\<not> API_KEY ?off \<longrightarrow>
                  lm' = errorMessage (imageFile ?s) (js ''hello'')
                          (js ''API_KEY environment variable not set.'')"
    by blast
  have "lm' = errorMessage (imageFile ?s) (js ''hello'') (js ''API_KEY environment variable not set.'')"
    using unset nokey by simp
  then have "messagesOf (ChatId 1) t' =
             Some [said USER (js ''hello''),
                   said ERROR (js ''An error occurred: API_KEY environment variable not set.'')]"
    using msgs'
    by (simp add: userMessageOf_def said_def idle_def js_def errorMessage_def
        friendlyMessage_def startsWith_def trim_def isWhiteSpace_def)
  then have second: "\<exists>s' calls.
      submitMessage ?off (js ''hello'') ?s ?s = Resolved s' calls \<and> \<not> isLoading s'
      \<and> messagesOf (ChatId 1) s' =
          Some [said USER (js ''hello''),
                said ERROR (js ''An error occurred: API_KEY environment variable not set.'')]"
    using run' idle' by blast
  from first second show ?thesis by simp
qed

theorem placeholder_left_counterexample:
  "submitMessage (streaming [Chunk LOADING_INDICATOR_CONTENT]) (js ''hello'')
     (idle [chat 1 []] (Some (ChatId 1))) (idle [chat 1 []] (Some (ChatId 1))) =
   Resolved
     (idle [(ChatId 1,
             \<lparr>id_conv = ChatId 1, title = js ''Greeting'',
              messages = [said USER (js ''hello''), placeholder]\<rparr>)]
        (Some (ChatId 1)))
     [TitleCall (js ''hello''), SendMessageStreamCall [] (js ''hello'')]
   \<and> submitMessage
       (streaming
          [Meanwhile (AddMessage (ChatId 1)
                        (said ERROR (js ''No speech was detected. Please try again.''))),
           StreamThrows (js ''reset'')])
       (js ''hello'')
       (idle [chat 1 []] (Some (ChatId 1))) (idle [chat 1 []] (Some (ChatId 1))) =
     Resolved
       (idle [(ChatId 1,
               \<lparr>id_conv = ChatId 1, title = js ''Greeting'',
                messages = [said USER (js ''hello''), placeholder,
                            said ERROR (js ''An error occurred: reset'')]\<rparr>)]
          (Some (ChatId 1)))
       [TitleCall (js ''hello''), SendMessageStreamCall [] (js ''hello'')]"
  by code_simp

text \<open>
  C3. Deleting the active conversation: when other conversations remain, the store is
  the old one without the deleted entry and the new active id is a remaining id whose
  time stamp is greatest, that is, the most recently created remaining conversation;
  when none remain, the store holds exactly one conversation, created with the id of
  the current time, titled "New Chat" and without messages, and it is active. In both
  cases the store is not empty.
\<close>

theorem deleteChat_active:
  assumes "currentChatId s = Some cid"
  shows "(AList.delete cid (conversations s) \<noteq> [] \<longrightarrow>
            conversations (deleteChat now cid s) = AList.delete cid (conversations s)
            \<and> (\<exists>k. currentChatId (deleteChat now cid s) = Some k
                   \<and> k \<in> fst ` set (AList.delete cid (conversations s))
                   \<and> (\<forall>k' \<in> fst ` set (AList.delete cid (conversations s)). stamp k' \<le> stamp k)))
       \<and> (AList.delete cid (conversations s) = [] \<longrightarrow>
            conversations (deleteChat now cid s) =
              [(ChatId now, \<lparr>id_conv = ChatId now, title = js ''New Chat'', messages = []\<rparr>)]
            \<and> currentChatId (deleteChat now cid s) = Some (ChatId now))
       \<and> conversations (deleteChat now cid s) \<noteq> []"
proof (cases "sortIds (map fst (AList.delete cid (conversations s)))")
  case Nil
  then have empty: "AList.delete cid (conversations s) = []"
    by (simp add: sortIds_Nil)
  show ?thesis
    using assms Nil empty by (simp add: deleteChat_def newConversation_def Let_def)
next
  case (Cons k rest)
  then have nonempty: "AList.delete cid (conversations s) \<noteq> []"
    by (auto simp: sortIds_def)
  from sortIds_head [OF Cons]
  have "k \<in> fst ` set (AList.delete cid (conversations s))"
    and "\<forall>k' \<in> fst ` set (AList.delete cid (conversations s)). stamp k' \<le> stamp k"
    by auto
  then show ?thesis
    using assms Cons nonempty by (simp add: deleteChat_def Let_def)
qed

theorem deleteChat_active_witness:
  "currentChatId (deleteChat 99 (ChatId 30) (idle [chat 10 [], chat 30 [], chat 20 []] (Some (ChatId 30))))
     = Some (ChatId 20)
   \<and> conversations (deleteChat 99 (ChatId 30) (idle [chat 10 [], chat 30 [], chat 20 []] (Some (ChatId 30))))
     = [chat 10 [], chat 20 []]
   \<and> deleteChat 99 (ChatId 30) (idle [chat 30 [said USER (js ''hello'')]] (Some (ChatId 30)))
     = idle [chat 99 []] (Some (ChatId 99))"
proof -
  let ?s = "idle [chat 10 [], chat 30 [], chat 20 []] (Some (ChatId 30))"
  let ?t = "idle [chat 30 [said USER (js ''hello'')]] (Some (ChatId 30))"
  have hs: "currentChatId ?s = Some (ChatId 30)" by (simp add: idle_def)
  have ht: "currentChatId ?t = Some (ChatId 30)" by (simp add: idle_def)
  have rs: "AList.delete (ChatId 30) (conversations ?s) = [chat 10 [], chat 20 []]"
    by (simp add: idle_def chat_def AList.delete_eq)
  have rt: "AList.delete (ChatId 30) (conversations ?t) = []"
    by (simp add: idle_def chat_def AList.delete_eq)
  from deleteChat_active [OF hs, of 99] rs
  obtain k where k: "currentChatId (deleteChat 99 (ChatId 30) ?s) = Some k"
    and "k \<in> {ChatId 10, ChatId 20}"
    and "\<forall>k' \<in> {ChatId 10, ChatId 20}. stamp k' \<le> stamp k"
    and cs: "conversations (deleteChat 99 (ChatId 30) ?s) = [chat 10 [], chat 20 []]"
    by (auto simp: chat_def)
  then have "k = ChatId 20" by auto
  moreover from deleteChat_active [OF ht, of 99] rt
  have "conversations (deleteChat 99 (ChatId 30) ?t) = [chat 99 []]
        \<and> currentChatId (deleteChat 99 (ChatId 30) ?t) = Some (ChatId 99)"
    by (simp add: chat_def)
  then have "deleteChat 99 (ChatId 30) ?t = idle [chat 99 []] (Some (ChatId 99))"
    by (simp add: deleteChat_def idle_def Let_def split: list.splits)
  ultimately show ?thesis using k cs by simp
qed







text \<open>
  C6 (what the code does). On the plain-text path the history is built from the
  message array as the closure of the turn holds it before the first wait, when the
  user message and the placeholder are not yet in it. The turn sends one streaming
  request, after the title request if there is one, and its history is the list of the
  messages the conversation had before the turn, filtered, without its last two
  entries: the previous exchange is cut, not the pair that the turn pushes.
\<close>

theorem history_without_last_two_earlier:
  assumes "truthy (trim mc) \<or> imageFile seen \<noteq> None"
    and "\<not> isLoading seen"
    and "currentChatId seen = Some cid"
    and "map_of (conversations seen) cid = Some conv"
    and "API_KEY env"
    and "selectPath mc (imageFile seen) = PlainText"
  shows "\<exists>titleCalls.
           callsOf (submitMessage env mc seen s) =
             titleCalls @
             [SendMessageStreamCall
                (map (\<lambda>m. (role m, content m))
                   (butlast (butlast (filter inTextHistory (messages conv))))) mc]
           \<and> (\<forall>c \<in> set titleCalls. \<exists>firstMessage. c = TitleCall firstMessage)"
proof -
  let ?um = "userMessageOf mc seen"
  let ?title = "titleStep env cid (messages conv = []) ?um (pushedState mc cid seen s)"
  let ?att = "tryBlock env cid (imageFile seen) (messages conv) ?um (fst ?title)"
  have run: "submitMessage env mc seen s =
             Resolved (finishTurn cid (imageFile seen) mc ?att) (snd ?title @ snd (snd ?att))"
    using assms(1-4) by (rule submitMessage_started)
  have "?att = textStreaming env cid (messages conv) ?um (fst ?title)"
    using assms(5,6) by (simp add: tryBlock_def)
  then have "snd (snd ?att) = [SendMessageStreamCall (chatHistory (messages conv)) mc]"
    by (simp add: textStreaming_calls)
  then have calls: "callsOf (submitMessage env mc seen s) =
      snd ?title @
      [SendMessageStreamCall
         (map (\<lambda>m. (role m, content m))
            (butlast (butlast (filter inTextHistory (messages conv))))) mc]"
    using run by (simp add: chatHistory_def)
  have titles: "\<forall>c \<in> set (snd ?title). \<exists>firstMessage. c = TitleCall firstMessage"
    using titleStep_calls by blast
  from calls titles show ?thesis by blast
qed

theorem history_without_last_two_earlier_witness:
  "callsOf (submitMessage (streaming [Chunk (js ''Fine'')]) (js ''again'')
      (idle [chat 1 [said USER (js ''hello''), said MODEL (js ''Hi'')]] (Some (ChatId 1)))
      (idle [chat 1 [said USER (js ''hello''), said MODEL (js ''Hi'')]] (Some (ChatId 1)))) =
   [SendMessageStreamCall [] (js ''again'')]"
proof -
  let ?env = "streaming [Chunk (js ''Fine'')]"
  let ?ms = "[said USER (js ''hello''), said MODEL (js ''Hi'')]"
  let ?s = "idle [chat 1 ?ms] (Some (ChatId 1))"
  have h1: "truthy (trim (js ''again'')) \<or> imageFile ?s \<noteq> None"
    by (simp add: truthy_def trim_def js_def isWhiteSpace_def)
  have h2: "\<not> isLoading ?s" by (simp add: idle_def)
  have h3: "currentChatId ?s = Some (ChatId 1)" by (simp add: idle_def)
  have h4: "map_of (conversations ?s) (ChatId 1) = Some (snd (chat 1 ?ms))"
    by (simp add: idle_def chat_def)
  have h5: "API_KEY ?env" by (simp add: streaming_def)
  have h6: "selectPath (js ''again'') (imageFile ?s) = PlainText"
    by (simp add: selectPath_def idle_def startsWith_def trim_def js_def isWhiteSpace_def)
  have old: "filter inTextHistory (messages (snd (chat 1 ?ms))) = ?ms"
    by (simp add: chat_def said_def inTextHistory_def)
  have none: "TitleCall firstMessage \<notin> set (callsOf (submitMessage ?env (js ''again'') ?s ?s))"
    for firstMessage
    by code_simp
  from history_without_last_two_earlier [OF h1 h2 h3 h4 h5 h6, of ?s]
  obtain titleCalls where calls: "callsOf (submitMessage ?env (js ''again'') ?s ?s) =
      titleCalls @ [SendMessageStreamCall [] (js ''again'')]"
    and titles: "\<forall>c \<in> set titleCalls. \<exists>firstMessage. c = TitleCall firstMessage"
    unfolding old by auto
  have "titleCalls = []"
  proof (cases titleCalls)
    case Nil
    then show ?thesis .
  next
    case (Cons c cs)
    then obtain firstMessage where "c = TitleCall firstMessage" using titles by auto
    then have "TitleCall firstMessage \<in> set (callsOf (submitMessage ?env (js ''again'') ?s ?s))"
      using calls Cons by simp
    then show ?thesis using none by simp
  qed
  then show ?thesis using calls by simp
qed

text \<open>
  C7. Deleting a conversation that is not the active one leaves the active id as it
  was, leaves every other conversation as it was, and keeps their order.
\<close>

theorem deleteChat_inactive:
  assumes "currentChatId s \<noteq> Some cid"
  shows "currentChatId (deleteChat now cid s) = currentChatId s
       \<and> (\<forall>k. k \<noteq> cid \<longrightarrow>
             map_of (conversations (deleteChat now cid s)) k = map_of (conversations s) k)
       \<and> conversations (deleteChat now cid s) = filter (\<lambda>(k, c). k \<noteq> cid) (conversations s)"
proof -
  have "AList.delete cid (conversations s) = filter (\<lambda>(k, c). k \<noteq> cid) (conversations s)"
    unfolding AList.delete_eq by (rule filter_cong) auto
  moreover have "\<forall>k. k \<noteq> cid \<longrightarrow>
      map_of (AList.delete cid (conversations s)) k = map_of (conversations s) k"
    by (simp add: delete_conv')
  ultimately show ?thesis
    using assms by (simp add: deleteChat_def Let_def)
qed

theorem deleteChat_inactive_witness:
  "currentChatId (deleteChat 99 (ChatId 10) (idle [chat 10 [], chat 30 [], chat 20 []] (Some (ChatId 30))))
     = Some (ChatId 30)
   \<and> conversations (deleteChat 99 (ChatId 10) (idle [chat 10 [], chat 30 [], chat 20 []] (Some (ChatId 30))))
     = [chat 30 [], chat 20 []]"
proof -
  let ?s = "idle [chat 10 [], chat 30 [], chat 20 []] (Some (ChatId 30))"
  have h: "currentChatId ?s \<noteq> Some (ChatId 10)" by (simp add: idle_def)
  from deleteChat_inactive [OF h, of 99]
  show ?thesis by (simp add: idle_def chat_def)
qed

text \<open>
  C8. When the state is saved and storage accepts the write, the conversation map
  written is the conversation map in memory with the image reference of every message
  removed (when storage refuses, nothing is written). The store in memory reads as
  before, images included: the objects that existed before the effect are unchanged.
\<close>

theorem saved_conversations_without_images:
  assumes "validStore h store"
  shows "(quotaLeft \<longrightarrow>
            aiChatConversations (snd (persist quotaLeft h store cur theme tts storage)) =
            Some (withoutImages (stringify h store)))
       \<and> (\<not> quotaLeft \<longrightarrow> snd (persist quotaLeft h store cur theme tts storage) = storage)
       \<and> stringify (fst (persist quotaLeft h store cur theme tts storage)) store = stringify h store
       \<and> take (length h) (fst (persist quotaLeft h store cur theme tts storage)) = h"
  using conversationsToSave_correct [OF assms]
  by (simp add: persist_def split_beta)

theorem saved_conversations_without_images_witness:
  "aiChatConversations
     (snd (persist True
        [\<lparr>role = USER, content = js ''look'', imageUrl = Some (js ''data:image/png;base64,AAAA'')\<rparr>,
         said MODEL (js ''Hi'')]
        [(ChatId 1, \<lparr>obj_id = ChatId 1, obj_title = js ''New Chat'', obj_messages = [0, 1]\<rparr>)]
        (Some (ChatId 1)) System False
        \<lparr>aiChatConversations = None, aiChatCurrentId = None, aiChatTheme = None,
         aiChatTtsEnabled = None\<rparr>))
   = Some [chat 1 [said USER (js ''look''), said MODEL (js ''Hi'')]]
   \<and> stringify
       (fst (persist True
          [\<lparr>role = USER, content = js ''look'', imageUrl = Some (js ''data:image/png;base64,AAAA'')\<rparr>,
           said MODEL (js ''Hi'')]
          [(ChatId 1, \<lparr>obj_id = ChatId 1, obj_title = js ''New Chat'', obj_messages = [0, 1]\<rparr>)]
          (Some (ChatId 1)) System False
          \<lparr>aiChatConversations = None, aiChatCurrentId = None, aiChatTheme = None,
           aiChatTtsEnabled = None\<rparr>))
       [(ChatId 1, \<lparr>obj_id = ChatId 1, obj_title = js ''New Chat'', obj_messages = [0, 1]\<rparr>)]
     = [chat 1 [\<lparr>role = USER, content = js ''look'',
                  imageUrl = Some (js ''data:image/png;base64,AAAA'')\<rparr>,
                said MODEL (js ''Hi'')]]
   \<and> snd (persist False
        [\<lparr>role = USER, content = js ''look'', imageUrl = Some (js ''data:image/png;base64,AAAA'')\<rparr>,
         said MODEL (js ''Hi'')]
        [(ChatId 1, \<lparr>obj_id = ChatId 1, obj_title = js ''New Chat'', obj_messages = [0, 1]\<rparr>)]
        (Some (ChatId 1)) System False
        \<lparr>aiChatConversations = None, aiChatCurrentId = None, aiChatTheme = None,
         aiChatTtsEnabled = None\<rparr>)
     = \<lparr>aiChatConversations = None, aiChatCurrentId = None, aiChatTheme = None,
        aiChatTtsEnabled = None\<rparr>"
proof -
  let ?h = "[\<lparr>role = USER, content = js ''look'', imageUrl = Some (js ''data:image/png;base64,AAAA'')\<rparr>,
             said MODEL (js ''Hi'')]"
  let ?store = "[(ChatId 1, \<lparr>obj_id = ChatId 1, obj_title = js ''New Chat'', obj_messages = [0, 1]\<rparr>)]"
  let ?empty = "\<lparr>aiChatConversations = None, aiChatCurrentId = None, aiChatTheme = None,
                 aiChatTtsEnabled = None\<rparr>"
  have v: "validStore ?h ?store" by (simp add: validStore_def)
  from saved_conversations_without_images [OF v, of True "Some (ChatId 1)" System False ?empty]
  have written: "aiChatConversations (snd (persist True ?h ?store (Some (ChatId 1)) System False ?empty))
        = Some [chat 1 [said USER (js ''look''), said MODEL (js ''Hi'')]]
      \<and> stringify (fst (persist True ?h ?store (Some (ChatId 1)) System False ?empty)) ?store
        = [chat 1 [\<lparr>role = USER, content = js ''look'',
                     imageUrl = Some (js ''data:image/png;base64,AAAA'')\<rparr>,
                   said MODEL (js ''Hi'')]]"
    by (simp add: stringify_def conversationAt_def withoutImages_def chat_def said_def)
  from saved_conversations_without_images [OF v, of False "Some (ChatId 1)" System False ?empty]
  have refused: "snd (persist False ?h ?store (Some (ChatId 1)) System False ?empty) = ?empty"
    by simp
  from written refused show ?thesis by simp
qed

text \<open>
  C9. The title generator answers "New Chat" when credentials are missing or its remote
  call throws; it is a total function, so no exception leaves it. A turn sends a title
  request only when the conversation had no message before the turn, and a turn on a
  conversation that already has messages changes no title (nor does any other handler
  that keeps titles and runs during the turn). Whatever the outcome of the title call,
  the messages of every conversation and \<open>isLoading\<close> after the turn are the same, so
  the title call cannot fail the turn.
\<close>

theorem title_generation_best_effort:
  "(\<not> API_KEY env \<or> (\<exists>e. titleResponse env = Throws e) \<longrightarrow>
      fst (getChatTitle env firstMessage) = js ''New Chat'')
   \<and> (TitleCall firstMessage \<in> set (callsOf (submitMessage env mc seen s)) \<longrightarrow>
        (\<exists>cid conv. currentChatId seen = Some cid \<and> map_of (conversations seen) cid = Some conv
           \<and> messages conv = []))
   \<and> (\<forall>cid conv. currentChatId seen = Some cid \<and> map_of (conversations seen) cid = Some conv
          \<and> messages conv \<noteq> []
          \<and> (\<forall>step \<in> set (stepsInTurn env (selectPath mc (imageFile seen))). keepsTitles step)
          \<longrightarrow>
        titleOf k (stateOf (submitMessage env mc seen s)) = titleOf k s)
   \<and> messagesOf k (stateOf (submitMessage (env\<lparr>titleResponse := r\<rparr>) mc seen s)) =
       messagesOf k (stateOf (submitMessage env mc seen s))
   \<and> isLoading (stateOf (submitMessage (env\<lparr>titleResponse := r\<rparr>) mc seen s)) =
       isLoading (stateOf (submitMessage env mc seen s))"
proof (intro conjI)
  show "\<not> API_KEY env \<or> (\<exists>e. titleResponse env = Throws e) \<longrightarrow>
        fst (getChatTitle env firstMessage) = js ''New Chat''"
    using getChatTitle_default by blast
  show "TitleCall firstMessage \<in> set (callsOf (submitMessage env mc seen s)) \<longrightarrow>
        (\<exists>cid conv. currentChatId seen = Some cid \<and> map_of (conversations seen) cid = Some conv
           \<and> messages conv = [])"
    using title_request_first_turn by blast
  show "\<forall>cid conv. currentChatId seen = Some cid \<and> map_of (conversations seen) cid = Some conv
          \<and> messages conv \<noteq> []
          \<and> (\<forall>step \<in> set (stepsInTurn env (selectPath mc (imageFile seen))). keepsTitles step)
          \<longrightarrow>
        titleOf k (stateOf (submitMessage env mc seen s)) = titleOf k s"
    using later_turn_keeps_titles by blast
  show "messagesOf k (stateOf (submitMessage (env\<lparr>titleResponse := r\<rparr>) mc seen s)) =
        messagesOf k (stateOf (submitMessage env mc seen s))"
    by (rule turn_messages_any_title)
  show "isLoading (stateOf (submitMessage (env\<lparr>titleResponse := r\<rparr>) mc seen s)) =
        isLoading (stateOf (submitMessage env mc seen s))"
    by (rule turn_isLoading_any_title)
qed

theorem title_generation_best_effort_witness:
  "fst (getChatTitle ((streaming [Chunk (js ''Hi'')])\<lparr>titleResponse := Throws (js ''offline'')\<rparr>)
         (js ''hello'')) = js ''New Chat''
   \<and> TitleCall (js ''hello'') \<in>
       set (callsOf (submitMessage (streaming [Chunk (js ''Hi'')]) (js ''hello'')
              (idle [chat 1 []] (Some (ChatId 1))) (idle [chat 1 []] (Some (ChatId 1)))))
   \<and> (\<exists>cid conv. currentChatId (idle [chat 1 []] (Some (ChatId 1))) = Some cid
         \<and> map_of (conversations (idle [chat 1 []] (Some (ChatId 1)))) cid = Some conv
         \<and> messages conv = [])
   \<and> titleOf (ChatId 1)
       (stateOf (submitMessage (streaming [Chunk (js ''Hi''), Meanwhile (InputSet (js ''next''))])
          (js ''again'')
          (idle [chat 1 [said USER (js ''hello''), said MODEL (js ''Hi'')]] (Some (ChatId 1)))
          (idle [chat 1 [said USER (js ''hello''), said MODEL (js ''Hi'')]] (Some (ChatId 1)))))
     = Some (js ''New Chat'')"
proof -
  let ?env = "streaming [Chunk (js ''Hi'')]"
  let ?busy = "streaming [Chunk (js ''Hi''), Meanwhile (InputSet (js ''next''))]"
  let ?off = "?env\<lparr>titleResponse := Throws (js ''offline'')\<rparr>"
  let ?first = "idle [chat 1 []] (Some (ChatId 1))"
  let ?later = "idle [chat 1 [said USER (js ''hello''), said MODEL (js ''Hi'')]] (Some (ChatId 1))"
  have throws: "\<exists>e. titleResponse ?off = Throws e" by simp
  have sent: "TitleCall (js ''hello'') \<in>
              set (callsOf (submitMessage ?env (js ''hello'') ?first ?first))"
    by code_simp
  have path: "selectPath (js ''again'') (imageFile ?later) = PlainText"
    by (simp add: selectPath_def idle_def startsWith_def trim_def js_def isWhiteSpace_def)
  have later: "currentChatId ?later = Some (ChatId 1)
      \<and> map_of (conversations ?later) (ChatId 1) =
          Some (snd (chat 1 [said USER (js ''hello''), said MODEL (js ''Hi'')]))
      \<and> messages (snd (chat 1 [said USER (js ''hello''), said MODEL (js ''Hi'')])) \<noteq> []
      \<and> (\<forall>step \<in> set (stepsInTurn ?busy (selectPath (js ''again'') (imageFile ?later))).
            keepsTitles step)"
    unfolding path
    by (simp add: idle_def chat_def stepsInTurn_def streaming_def flagAtStream_def)
  have before: "titleOf (ChatId 1) ?later = Some (js ''New Chat'')"
    by (simp add: titleOf_def idle_def chat_def)
  from title_generation_best_effort
         [of ?off "js ''hello''" "js ''hello''" ?first ?first "ChatId 1" "Returns []"]
    throws
  have a: "fst (getChatTitle ?off (js ''hello'')) = js ''New Chat''" by blast
  from title_generation_best_effort
         [of ?env "js ''hello''" "js ''hello''" ?first ?first "ChatId 1" "Returns []"]
    sent
  have b: "\<exists>cid conv. currentChatId ?first = Some cid
         \<and> map_of (conversations ?first) cid = Some conv \<and> messages conv = []" by blast
  from title_generation_best_effort
         [of ?busy "js ''hello''" "js ''again''" ?later ?later "ChatId 1" "Returns []"]
    later
  have c: "titleOf (ChatId 1) (stateOf (submitMessage ?busy (js ''again'') ?later ?later)) =
           titleOf (ChatId 1) ?later" by blast
  show ?thesis using a sent b c before by simp
qed

text \<open>
  C10 (as the code has it). A selected file whose type does not start with
  \<open>image/\<close>, or whose size is above 10 MB, is not staged: the staging slot stays as
  it was, and an error-role message with a text is appended to the current
  conversation when there is one.
\<close>

theorem rejected_file_not_staged:
  assumes "\<not> startsWith (file_type img) (js ''image/'') \<or> file_size img > 10 * 1024 * 1024"
  shows "imageFile (handleFileChange (Some img) reader s) = imageFile s
       \<and> imagePreview (handleFileChange (Some img) reader s) = imagePreview s
       \<and> (\<forall>cid ms. currentChatId s = Some cid \<and> messagesOf cid s = Some ms \<longrightarrow>
             (\<exists>e. role e = ERROR \<and> truthy (content e)
               \<and> messagesOf cid (handleFileChange (Some img) reader s) = Some (ms @ [e])))"
proof (cases "startsWith (file_type img) (js ''image/'')")
  case False
  then have "handleFileChange (Some img) reader s = addMessageToCurrentChat invalidTypeMessage s"
    by (simp add: handleFileChange_def)
  moreover have "role invalidTypeMessage = ERROR \<and> truthy (content invalidTypeMessage)"
    by (simp add: invalidTypeMessage_def truthy_def js_def)
  ultimately show ?thesis
    using addMessage_staging [of invalidTypeMessage s] addMessage_messagesOf [of s _ _ invalidTypeMessage]
    by auto
next
  case True
  then have "file_size img > 10 * 1024 * 1024" using assms by simp
  then have "handleFileChange (Some img) reader s = addMessageToCurrentChat tooLargeMessage s"
    using True by (simp add: handleFileChange_def MAX_SIZE_MB_def)
  moreover have "role tooLargeMessage = ERROR \<and> truthy (content tooLargeMessage)"
    by (simp add: tooLargeMessage_def truthy_def js_def)
  ultimately show ?thesis
    using addMessage_staging [of tooLargeMessage s] addMessage_messagesOf [of s _ _ tooLargeMessage]
    by auto
qed

theorem rejected_file_not_staged_witness:
  "imageFile (handleFileChange (Some \<lparr>file_type = js ''text/plain'', file_size = 12\<rparr>) ReadFailed
      (idle [chat 1 []] (Some (ChatId 1)))) = None
   \<and> (\<exists>e. role e = ERROR
         \<and> messagesOf (ChatId 1)
             (handleFileChange (Some \<lparr>file_type = js ''text/plain'', file_size = 12\<rparr>) ReadFailed
                (idle [chat 1 []] (Some (ChatId 1)))) = Some [e])"
proof -
  let ?img = "\<lparr>file_type = js ''text/plain'', file_size = 12\<rparr>"
  let ?s = "idle [chat 1 []] (Some (ChatId 1))"
  have h: "\<not> startsWith (file_type ?img) (js ''image/'') \<or> file_size ?img > 10 * 1024 * 1024"
    by (simp add: startsWith_def js_def)
  have c: "currentChatId ?s = Some (ChatId 1) \<and> messagesOf (ChatId 1) ?s = Some []"
    by (simp add: idle_def chat_def messagesOf_def)
  from rejected_file_not_staged [OF h, of ReadFailed ?s] c
  show ?thesis by (auto simp: idle_def)
qed

theorem staged_image_stays_counterexample:
  "imageFile (handleFileChange (Some \<lparr>file_type = js ''text/plain'', file_size = 12\<rparr>) ReadFailed
      ((idle [chat 1 []] (Some (ChatId 1)))
         \<lparr>imageFile := Some photo, imagePreview := Some (js ''data:image/png;base64,AAAA'')\<rparr>))
   = Some photo"
  by code_simp

end

